theory Spec2Isabelle
  imports Complex_Main "HOL-Library.Word"
begin

unbundle bit_operations_syntax

section \<open>The recursive-descent parser (recursive\_parser\_secondary.cpp)\<close>

subsection \<open>Tokens, tree nodes and the parser's global state\<close>

text \<open>
  Tokens and tree nodes share one tag enumeration: the parser compares the current token's
  tag with \<open>OCBR\<close>, \<open>CCBR\<close>, \<open>KWD\<close>, \<open>SMC\<close>, \<open>OBR\<close>, \<open>CBR\<close>, \<open>OP\<close>, \<open>NUM\<close>
  and a node's tag with \<open>SCS\<close>. A token that is none of these is read as a variable.
\<close>

datatype Node_type = NUM | VAR | OP | KWD | SMC | OBR | CBR | OCBR | CCBR | SCS | SCE

datatype Ops = ADD | SUB | MUL | DIV | POW | ASS

text \<open>
  A token carries a tag and a value union with the members \<open>num_value\<close>, \<open>var_value\<close> and
  \<open>op_value\<close>. \<open>get_id\<close> reads \<open>var_value\<close> whatever the tag is, so the three members
  are kept as three fields: the inactive ones hold whatever the lexer left there.
  \<open>btr_elem_t\<close> is a double; the parser only copies it, so it is a real number here.
\<close>

record token =
  ttype :: Node_type
  num_value :: real
  var_value :: string
  op_value :: Ops

definition tNUM :: "real \<Rightarrow> token" where
  "tNUM x = \<lparr>ttype = NUM, num_value = x, var_value = [], op_value = ADD\<rparr>"

definition tVAR :: "string \<Rightarrow> token" where
  "tVAR x = \<lparr>ttype = VAR, num_value = 0, var_value = x, op_value = ADD\<rparr>"

definition tKWD :: "string \<Rightarrow> token" where
  "tKWD x = \<lparr>ttype = KWD, num_value = 0, var_value = x, op_value = ADD\<rparr>"

definition tOP :: "Ops \<Rightarrow> token" where
  "tOP x = \<lparr>ttype = OP, num_value = 0, var_value = [], op_value = x\<rparr>"

definition tSYM :: "Node_type \<Rightarrow> token" where
  "tSYM ty = \<lparr>ttype = ty, num_value = 0, var_value = [], op_value = ADD\<rparr>"

datatype Value = NumV real | VarV string | OpV Ops | NoV

datatype B_tree_node =
  Node (ntype: Node_type) (nvalue: "Value") (left: "B_tree_node option") (right: "B_tree_node option")

text \<open>
  Modelled from the spec: the node constructors \<open>CR_NUM\<close>, \<open>CR_VAR\<close>, \<open>CR_KWD\<close>,
  \<open>CR_OP\<close>, \<open>CR_ASS\<close>, \<open>CR_SMC\<close>, \<open>CR_SCS\<close> and \<open>CR_SCE\<close> are macros of
  recursive\_parser\_secondary.h, which is missing. Each allocates one fresh node with the
  tag of its name, the given payload and the two given children; an assignment is the
  operator node of \<open>ASS\<close>.
\<close>

definition CR_NUM :: "real \<Rightarrow> B_tree_node option \<Rightarrow> B_tree_node option \<Rightarrow> B_tree_node" where
  "CR_NUM v l r = Node NUM (NumV v) l r"

definition CR_VAR :: "string \<Rightarrow> B_tree_node option \<Rightarrow> B_tree_node option \<Rightarrow> B_tree_node" where
  "CR_VAR v l r = Node VAR (VarV v) l r"

definition CR_KWD :: "string \<Rightarrow> B_tree_node option \<Rightarrow> B_tree_node option \<Rightarrow> B_tree_node" where
  "CR_KWD v l r = Node KWD (VarV v) l r"

definition CR_OP :: "Ops \<Rightarrow> B_tree_node \<Rightarrow> B_tree_node \<Rightarrow> B_tree_node" where
  "CR_OP op l r = Node OP (OpV op) (Some l) (Some r)"

definition CR_ASS :: "B_tree_node \<Rightarrow> B_tree_node \<Rightarrow> B_tree_node" where
  "CR_ASS l r = Node OP (OpV ASS) (Some l) (Some r)"

definition CR_SMC :: "B_tree_node option \<Rightarrow> B_tree_node option \<Rightarrow> B_tree_node" where
  "CR_SMC l r = Node SMC NoV l r"

definition CR_SCS :: "B_tree_node option \<Rightarrow> B_tree_node option \<Rightarrow> B_tree_node" where
  "CR_SCS l r = Node SCS NoV l r"

definition CR_SCE :: "B_tree_node option \<Rightarrow> B_tree_node option \<Rightarrow> B_tree_node" where
  "CR_SCE l r = Node SCE NoV l r"

text \<open>
  Modelled from the spec: \<open>IS_KWD\<close> is a macro of the same missing header. The
  keyword's name is the given string.
\<close>

definition IS_KWD :: "string \<Rightarrow> string \<Rightarrow> bool" where
  "IS_KWD name kw = (name = kw)"

text \<open>
  \<open>kwd->value.var_value\<close>: the name stored in a node. \<open>get_id\<close> returns only \<open>VAR\<close> and
  \<open>KWD\<close> nodes, which carry one (lemma \<open>get_id_carries_name\<close>).
\<close>

fun node_var_value :: "B_tree_node \<Rightarrow> string" where
  "node_var_value (Node t (VarV name) l r) = name"
| "node_var_value (Node t v l r) = []"

text \<open>
  The two globals the parser mutates: the token cursor \<open>id\<close> and the static counter
  \<open>sce_debt\<close>. The token array is only read. The counter is a \<open>size_t\<close>; it counts close
  braces consumed, so it stays far below \<open>2 ^ 64\<close> and is a natural number here.
\<close>

record pstate =
  tok_id :: nat
  sce_debt :: nat

definition id_incr :: "pstate \<Rightarrow> pstate" where
  "id_incr s = s\<lparr>tok_id := tok_id s + 1\<rparr>"

text \<open>
  What a call does: it returns (the value and the globals after it), or it runs into
  undefined behaviour (\<open>Crash\<close>: a store through a null pointer, or a read of
  \<open>tokens->data[id]\<close> past the end of the token array), or the model's fuel runs out.
  A returned \<open>None\<close> is the null pointer, which is how a syntax error is reported.
\<close>

datatype 'a outcome = Returns 'a | Crash | NoFuel

type_synonym parse_result = "(B_tree_node option \<times> pstate) outcome"

text \<open>
  Modelled from the spec: the macros \<open>CUR_TYPE\<close>, \<open>CUR_OP\<close> and \<open>CUR_NUM\<close> of the
  missing header. Each is a read of \<open>tokens->data[id]\<close>, the token under the cursor; a
  cursor past the end of the array reads no token.
\<close>

definition CUR :: "token list \<Rightarrow> pstate \<Rightarrow> (token \<Rightarrow> 'a outcome) \<Rightarrow> 'a outcome" where
  "CUR ts s f = (if tok_id s < length ts then f (ts ! tok_id s) else Crash)"

text \<open>A call whose result is used as it is, null or not.\<close>

definition call :: "('a \<times> pstate) outcome \<Rightarrow> ('a \<Rightarrow> pstate \<Rightarrow> 'b outcome) \<Rightarrow> 'b outcome" where
  "call m f = (case m of Returns (x, s) \<Rightarrow> f x s | Crash \<Rightarrow> Crash | NoFuel \<Rightarrow> NoFuel)"

text \<open>
  Modelled from the spec: the macros \<open>CHECK_RET\<close>, \<open>SYNTAX_ERROR\<close> and
  \<open>SYNTAX_CHECK\<close> of the missing header. An error is signalled to the caller at once and
  the functions return node pointers, so \<open>SYNTAX_ERROR\<close> returns null,
  \<open>SYNTAX_CHECK(c)\<close> does so when \<open>c\<close> fails, and \<open>CHECK_RET(x)\<close>, which stands
  behind a call, returns null when \<open>x\<close> is null. \<open>CHECK_RET m f\<close> is the call \<open>m\<close>, the
  check of its result, and the statements \<open>f\<close> after it.
\<close>

definition CHECK_RET :: "parse_result \<Rightarrow> (B_tree_node \<Rightarrow> pstate \<Rightarrow> parse_result) \<Rightarrow> parse_result" where
  "CHECK_RET m f =
     call m (\<lambda>x s. case x of None \<Rightarrow> Returns (None, s) | Some n \<Rightarrow> f n s)"

definition SYNTAX_ERROR :: "pstate \<Rightarrow> parse_result" where
  "SYNTAX_ERROR s = Returns (None, s)"

subsection \<open>In-place updates of the tree under construction\<close>

text \<open>
  Every node is allocated by one of the constructors and linked into one parent only, so
  the structure the parser builds is a tree, and an update through a pointer (\<open>x->right = y\<close>,
  \<open>root->type = SCS\<close>) is the same tree with that node replaced. A pointer into the chain
  hanging off \<open>root\<close> by \<open>right\<close> links is the number of links followed from \<open>root\<close>.
\<close>

fun set_type :: "B_tree_node \<Rightarrow> Node_type \<Rightarrow> B_tree_node" where
  "set_type (Node t v l r) t' = Node t' v l r"

text \<open>The node reached from \<open>root\<close> by \<open>d\<close> steps of \<open>->right\<close>; \<open>None\<close> is null.\<close>

fun node_at :: "B_tree_node \<Rightarrow> nat \<Rightarrow> B_tree_node option" where
  "node_at n 0 = Some n"
| "node_at (Node t v l None) (Suc d) = None"
| "node_at (Node t v l (Some r)) (Suc d) = node_at r d"

text \<open>
  \<open>scope_end = get_scope_end(cur_node); scope_end->right = x;\<close> seen from \<open>root\<close>:
  \<open>cur_node\<close> lies on the chain of \<open>root\<close>, so the last node of its chain is the last node
  of the chain of \<open>root\<close>.
\<close>

fun scope_end_assign :: "B_tree_node \<Rightarrow> B_tree_node option \<Rightarrow> B_tree_node" where
  "scope_end_assign (Node t v l None) x = Node t v l x"
| "scope_end_assign (Node t v l (Some r)) x = Node t v l (Some (scope_end_assign r x))"

text \<open>\<open>cur_node->right = x;\<close> for the node \<open>d\<close> links below \<open>root\<close>.\<close>

fun right_assign_at :: "B_tree_node \<Rightarrow> nat \<Rightarrow> B_tree_node option \<Rightarrow> B_tree_node" where
  "right_assign_at (Node t v l r) 0 x = Node t v l x"
| "right_assign_at (Node t v l None) (Suc d) x = Node t v l None"
| "right_assign_at (Node t v l (Some r)) (Suc d) x = Node t v l (Some (right_assign_at r d x))"

text \<open>\<open>cur_node = cur_node->right;\<close> for a \<open>cur_node\<close> that is \<open>d\<close> links below \<open>root\<close>.\<close>

definition step_right :: "B_tree_node \<Rightarrow> nat \<Rightarrow> nat option" where
  "step_right rt d = (case node_at rt (Suc d) of None \<Rightarrow> None | Some n \<Rightarrow> Some (Suc d))"

subsection \<open>Paying the sequence debt\<close>

text \<open>
  \<open>get_cmd\<close>, in both of its branches, when \<open>sce_debt\<close> is not zero: a chain of
  \<open>sce_debt\<close> nodes \<open>SCE\<close> linked by \<open>right\<close>, the last one holding the command on its
  left. The argument is the number of iterations of the loop, \<open>sce_debt - 1\<close>.
\<close>

fun cmd_parent :: "nat \<Rightarrow> B_tree_node \<Rightarrow> B_tree_node" where
  "cmd_parent 0 cmd = CR_SCE (Some cmd) None"
| "cmd_parent (Suc k) cmd = CR_SCE None (Some (cmd_parent k cmd))"

definition pay_cmd_debt :: "B_tree_node \<Rightarrow> pstate \<Rightarrow> parse_result" where
  "pay_cmd_debt cmd s =
     (if sce_debt s \<noteq> 0
      then Returns (Some (cmd_parent (sce_debt s - 1) cmd), s\<lparr>sce_debt := 0\<rparr>)
      else Returns (Some (CR_SMC (Some cmd) None), s))"

text \<open>
  \<open>get_scope\<close>, after the close brace: \<open>root = CR_SCE(NULL, root)\<close>, once for each unit of
  the debt the scope found on entry.
\<close>

definition pay_scope_debt :: "nat \<Rightarrow> B_tree_node \<Rightarrow> B_tree_node" where
  "pay_scope_debt scope_sce_debt rt = ((\<lambda>r. CR_SCE None (Some r)) ^^ scope_sce_debt) rt"

text \<open>The tag fix-up of \<open>get_scope\<close> between the close brace and the payment.\<close>

definition mark_scope :: "B_tree_node \<Rightarrow> B_tree_node" where
  "mark_scope rt = (if ntype rt = SCS then CR_SCS None (Some rt) else set_type rt SCS)"

subsection \<open>The productions\<close>

definition get_num :: "token list \<Rightarrow> pstate \<Rightarrow> parse_result" where
  "get_num ts s = CUR ts s (\<lambda>t. Returns (Some (CR_NUM (num_value t) None None), id_incr s))"

definition is_add_sub :: "token \<Rightarrow> bool" where
  "is_add_sub t = (ttype t = OP \<and> (op_value t = ADD \<or> op_value t = SUB))"

definition is_mul_div :: "token \<Rightarrow> bool" where
  "is_mul_div t = (ttype t = OP \<and> (op_value t = MUL \<or> op_value t = DIV))"

definition is_pow :: "token \<Rightarrow> bool" where
  "is_pow t = (ttype t = OP \<and> op_value t = POW)"

definition is_cond_kwd :: "string \<Rightarrow> bool" where
  "is_cond_kwd name = (IS_KWD name ''while'' \<or> IS_KWD name ''if'')"

text \<open>
  The productions call each other, so they are one recursive definition over the
  production that is running: \<open>parse n ts p s\<close> runs production \<open>p\<close> from the globals
  \<open>s\<close>. The first argument is fuel: each call and each loop iteration passes one unit less
  down. A \<open>while\<close> loop is a production of its own, holding the locals that are live in
  it, and it ends with the statements that follow the loop in its function.
\<close>

datatype production =
    Get_scope
  | Scope_loop nat B_tree_node "nat option"
  | Get_cmd
  | Get_cond
  | Cond_loop string B_tree_node "B_tree_node option" nat
  | Get_ass
  | Get_add
  | Add_loop B_tree_node
  | Get_mul
  | Mul_loop B_tree_node
  | Get_par
  | Get_id
  | Get_pow
  | Pow_loop B_tree_node

text \<open>
  \<open>get_scope\<close> from \<open>sce_debt++\<close> to its \<open>return root\<close>: the counter goes up by one, the
  close brace is consumed, the first node is tagged and the debt found on entry is paid.
\<close>

definition scope_close :: "nat \<Rightarrow> B_tree_node \<Rightarrow> pstate \<Rightarrow> parse_result" where
  "scope_close scope_sce_debt rt s =
     Returns (Some (pay_scope_debt scope_sce_debt (mark_scope rt)),
              id_incr (s\<lparr>sce_debt := sce_debt s + 1\<rparr>))"

primrec parse :: "nat \<Rightarrow> token list \<Rightarrow> production \<Rightarrow> pstate \<Rightarrow> parse_result" where
  "parse 0 ts p s = NoFuel"
| "parse (Suc n) ts p s =
    (case p of
       Get_scope \<Rightarrow>
         CUR ts s (\<lambda>t.
           if ttype t = OCBR then
             (let scope_sce_debt = sce_debt s in
              CHECK_RET (parse n ts Get_scope (id_incr (s\<lparr>sce_debt := 0\<rparr>))) (\<lambda>rt s1.
                parse n ts (Scope_loop scope_sce_debt rt (Some 0)) s1))
           else
             CHECK_RET (parse n ts Get_cmd s) (\<lambda>rt s1. Returns (Some rt, s1)))

     | Scope_loop scope_sce_debt rt cur_node \<Rightarrow>
         CUR ts s (\<lambda>t.
           if ttype t \<noteq> CCBR then
             call (parse n ts Get_scope s) (\<lambda>x s1.
               case cur_node of
                 None \<Rightarrow> Crash
               | Some d \<Rightarrow>
                   (let rt' = scope_end_assign rt x
                    in parse n ts (Scope_loop scope_sce_debt rt' (step_right rt' d)) s1))
           else scope_close scope_sce_debt rt s)

     | Get_cmd \<Rightarrow>
         CUR ts s (\<lambda>t.
           if ttype t = KWD then
             CHECK_RET (parse n ts Get_cond s) (\<lambda>cmd s1. pay_cmd_debt cmd s1)
           else
             CHECK_RET (parse n ts Get_ass s) (\<lambda>cmd s1.
               CUR ts s1 (\<lambda>t1.
                 if ttype t1 = SMC then pay_cmd_debt cmd (id_incr s1)
                 else SYNTAX_ERROR s1)))

     | Get_cond \<Rightarrow>
         CHECK_RET (parse n ts Get_id s) (\<lambda>kwd s1.
           if \<not> is_cond_kwd (node_var_value kwd) then SYNTAX_ERROR s1
           else
             CUR ts s1 (\<lambda>t1.
               if ttype t1 = OBR then
                 CHECK_RET (parse n ts Get_add (id_incr s1)) (\<lambda>br_expr s2.
                   CUR ts s2 (\<lambda>t2.
                     if ttype t2 = CBR then
                       (let s3 = id_incr s2 in
                        CUR ts s3 (\<lambda>t3.
                          if ttype t3 = OCBR then
                            call (parse n ts Get_cmd (id_incr s3)) (\<lambda>rt s4.
                              parse n ts (Cond_loop (node_var_value kwd) br_expr rt 0) s4)
                          else
                            CHECK_RET (parse n ts Get_cmd s3) (\<lambda>cmd s4.
                              Returns (Some (CR_KWD (node_var_value kwd) (Some br_expr) (Some cmd)), s4))))
                     else SYNTAX_ERROR s2))
               else SYNTAX_ERROR s1))

     | Cond_loop name br_expr rt d \<Rightarrow>
         CUR ts s (\<lambda>t.
           if ttype t \<noteq> CCBR then
             call (parse n ts Get_cmd s) (\<lambda>x s1.
               case rt of
                 None \<Rightarrow> Crash
               | Some r \<Rightarrow>
                   (case x of
                      None \<Rightarrow> Returns (None, s1)
                    | Some c \<Rightarrow>
                        parse n ts (Cond_loop name br_expr (Some (right_assign_at r d x)) (Suc d)) s1))
           else Returns (Some (CR_KWD name (Some br_expr) rt), id_incr s))

     | Get_ass \<Rightarrow>
         CHECK_RET (parse n ts Get_id s) (\<lambda>var s1.
           CUR ts s1 (\<lambda>t1.
             if ttype t1 = OP \<and> op_value t1 = ASS then
               CHECK_RET (parse n ts Get_add (id_incr s1)) (\<lambda>expr s2.
                 Returns (Some (CR_ASS var expr), s2))
             else SYNTAX_ERROR s1))

     | Get_add \<Rightarrow>
         CHECK_RET (parse n ts Get_mul s) (\<lambda>val s1. parse n ts (Add_loop val) s1)

     | Add_loop val \<Rightarrow>
         CUR ts s (\<lambda>t.
           if is_add_sub t then
             CHECK_RET (parse n ts Get_mul (id_incr s)) (\<lambda>val_2 s1.
               parse n ts (Add_loop (CR_OP (op_value t) val val_2)) s1)
           else Returns (Some val, s))

     | Get_mul \<Rightarrow>
         CHECK_RET (parse n ts Get_pow s) (\<lambda>val s1. parse n ts (Mul_loop val) s1)

     | Mul_loop val \<Rightarrow>
         CUR ts s (\<lambda>t.
           if is_mul_div t then
             CHECK_RET (parse n ts Get_pow (id_incr s)) (\<lambda>val_2 s1.
               parse n ts (Mul_loop (CR_OP (op_value t) val val_2)) s1)
           else Returns (Some val, s))

     | Get_par \<Rightarrow>
         CUR ts s (\<lambda>t.
           if ttype t = OBR then
             CHECK_RET (parse n ts Get_add (id_incr s)) (\<lambda>val s1.
               CUR ts s1 (\<lambda>t1.
                 if ttype t1 = CBR then Returns (Some val, id_incr s1)
                 else SYNTAX_ERROR s1))
           else if ttype t = NUM then
             CHECK_RET (get_num ts s) (\<lambda>val s1. Returns (Some val, s1))
           else
             CHECK_RET (parse n ts Get_id s) (\<lambda>val s1. Returns (Some val, s1)))

     | Get_id \<Rightarrow>
         CUR ts s (\<lambda>t.
           let var_name = var_value t in
           if ttype t = KWD then
             (let s1 = id_incr s in
              if \<not> is_cond_kwd var_name then
                CUR ts s1 (\<lambda>t1.
                  if ttype t1 = OBR then
                    CHECK_RET (parse n ts Get_add (id_incr s1)) (\<lambda>child s2.
                      CUR ts s2 (\<lambda>t2.
                        if ttype t2 = CBR
                        then Returns (Some (CR_KWD var_name None (Some child)), id_incr s2)
                        else SYNTAX_ERROR s2))
                  else SYNTAX_ERROR s1)
              else Returns (Some (CR_KWD var_name None None), s1))
           else Returns (Some (CR_VAR var_name None None), id_incr s))

     | Get_pow \<Rightarrow>
         CHECK_RET (parse n ts Get_par s) (\<lambda>val s1. parse n ts (Pow_loop val) s1)

     | Pow_loop val \<Rightarrow>
         CUR ts s (\<lambda>t.
           if is_pow t then
             CHECK_RET (parse n ts Get_par (id_incr s)) (\<lambda>val_2 s1.
               parse n ts (Pow_loop (CR_OP POW val val_2)) s1)
           else Returns (Some val, s)))"

text \<open>The functions of the source, by name.\<close>

definition get_scope :: "nat \<Rightarrow> token list \<Rightarrow> pstate \<Rightarrow> parse_result" where
  "get_scope n ts = parse n ts Get_scope"

definition get_cmd :: "nat \<Rightarrow> token list \<Rightarrow> pstate \<Rightarrow> parse_result" where
  "get_cmd n ts = parse n ts Get_cmd"

definition get_cond :: "nat \<Rightarrow> token list \<Rightarrow> pstate \<Rightarrow> parse_result" where
  "get_cond n ts = parse n ts Get_cond"

definition get_ass :: "nat \<Rightarrow> token list \<Rightarrow> pstate \<Rightarrow> parse_result" where
  "get_ass n ts = parse n ts Get_ass"

definition get_add :: "nat \<Rightarrow> token list \<Rightarrow> pstate \<Rightarrow> parse_result" where
  "get_add n ts = parse n ts Get_add"

definition get_mul :: "nat \<Rightarrow> token list \<Rightarrow> pstate \<Rightarrow> parse_result" where
  "get_mul n ts = parse n ts Get_mul"

definition get_par :: "nat \<Rightarrow> token list \<Rightarrow> pstate \<Rightarrow> parse_result" where
  "get_par n ts = parse n ts Get_par"

definition get_id :: "nat \<Rightarrow> token list \<Rightarrow> pstate \<Rightarrow> parse_result" where
  "get_id n ts = parse n ts Get_id"

definition get_pow :: "nat \<Rightarrow> token list \<Rightarrow> pstate \<Rightarrow> parse_result" where
  "get_pow n ts = parse n ts Get_pow"

text \<open>The loops of the source, named after the function that holds them.\<close>

definition scope_loop ::
  "nat \<Rightarrow> token list \<Rightarrow> nat \<Rightarrow> B_tree_node \<Rightarrow> nat option \<Rightarrow> pstate \<Rightarrow> parse_result" where
  "scope_loop n ts scope_sce_debt rt cur_node = parse n ts (Scope_loop scope_sce_debt rt cur_node)"

definition cond_loop ::
  "nat \<Rightarrow> token list \<Rightarrow> string \<Rightarrow> B_tree_node \<Rightarrow> B_tree_node option \<Rightarrow> nat \<Rightarrow> pstate \<Rightarrow> parse_result" where
  "cond_loop n ts name br_expr rt d = parse n ts (Cond_loop name br_expr rt d)"

definition add_loop :: "nat \<Rightarrow> token list \<Rightarrow> B_tree_node \<Rightarrow> pstate \<Rightarrow> parse_result" where
  "add_loop n ts val = parse n ts (Add_loop val)"

definition mul_loop :: "nat \<Rightarrow> token list \<Rightarrow> B_tree_node \<Rightarrow> pstate \<Rightarrow> parse_result" where
  "mul_loop n ts val = parse n ts (Mul_loop val)"

definition pow_loop :: "nat \<Rightarrow> token list \<Rightarrow> B_tree_node \<Rightarrow> pstate \<Rightarrow> parse_result" where
  "pow_loop n ts val = parse n ts (Pow_loop val)"

text \<open>
  The order of outcomes in which running out of fuel lies below every outcome: more fuel
  can only turn \<open>NoFuel\<close> into an outcome of the code.
\<close>

definition fuel_le :: "'a outcome \<Rightarrow> 'a outcome \<Rightarrow> bool" where
  "fuel_le r r' = (r = NoFuel \<or> r = r')"

text \<open>
  The fuel that is enough. A production other than a loop consumes a token before it
  returns, a loop may return where it started (\<open>advanced\<close>). A production calls another
  one either behind a consumed token or at the same place and then one of lower \<open>rank\<close>,
  so five units for each token left and the rank suffice.
\<close>

fun is_loop :: "production \<Rightarrow> bool" where
  "is_loop (Scope_loop d rt c) = True"
| "is_loop (Cond_loop kw b rt d) = True"
| "is_loop (Add_loop v) = True"
| "is_loop (Mul_loop v) = True"
| "is_loop (Pow_loop v) = True"
| "is_loop p = False"

definition advanced :: "production \<Rightarrow> pstate \<Rightarrow> pstate \<Rightarrow> bool" where
  "advanced p s s' = (if is_loop p then tok_id s \<le> tok_id s' else tok_id s < tok_id s')"

fun rank :: "production \<Rightarrow> nat" where
  "rank Get_id = 0"
| "rank Get_par = 1"
| "rank Get_pow = 2"
| "rank Get_mul = 3"
| "rank Get_add = 4"
| "rank Get_ass = 1"
| "rank Get_cond = 1"
| "rank Get_cmd = 2"
| "rank Get_scope = 3"
| "rank (Scope_loop d rt c) = 4"
| "rank (Cond_loop kw b rt d) = 3"
| "rank (Add_loop v) = 0"
| "rank (Mul_loop v) = 0"
| "rank (Pow_loop v) = 0"

definition enough :: "token list \<Rightarrow> production \<Rightarrow> pstate \<Rightarrow> nat" where
  "enough ts p s = 5 * (length ts - tok_id s) + rank p + 1"

subsection \<open>Token sequences the claims speak of\<close>

text \<open>
  An atom is a number or a variable token; \<open>get_par\<close> turns it into a leaf.
  \<open>pow_tail as\<close> is the token text \<open>^ b\<^sub>1 ^ b\<^sub>2 ...\<close> that follows the first atom of a
  chained power.
\<close>

definition is_atom :: "token \<Rightarrow> bool" where
  "is_atom t = (ttype t = NUM \<or> ttype t = VAR)"

definition atom_node :: "token \<Rightarrow> B_tree_node" where
  "atom_node t = (if ttype t = NUM then CR_NUM (num_value t) None None
                  else CR_VAR (var_value t) None None)"

definition pow_tail :: "token list \<Rightarrow> token list" where
  "pow_tail as = concat (map (\<lambda>b. [tOP POW, b]) as)"

text \<open>
  The operands that follow the first operand of a chain: \<open>operands is_op sub ts s xs\<close>
  holds when, from the globals \<open>s\<close> on, the token array reads as one operator accepted by
  \<open>is_op\<close> and one operand parsed by \<open>sub\<close> for each entry of \<open>xs\<close> (the operator, the
  operand's tree and the globals behind it), and then a token that \<open>is_op\<close> does not
  accept. \<open>fold_ops\<close> is the left fold of the operands onto the first one, \<open>end_state\<close>
  the globals behind the last one.
\<close>

fun operands ::
  "(token \<Rightarrow> bool) \<Rightarrow> (pstate \<Rightarrow> parse_result) \<Rightarrow> token list \<Rightarrow> pstate \<Rightarrow>
   (Ops \<times> B_tree_node \<times> pstate) list \<Rightarrow> bool" where
  "operands is_op sub ts s [] = (tok_id s < length ts \<and> \<not> is_op (ts ! tok_id s))"
| "operands is_op sub ts s ((op, e, s') # xs) =
     (tok_id s < length ts \<and> is_op (ts ! tok_id s) \<and> op = op_value (ts ! tok_id s) \<and>
      sub (id_incr s) = Returns (Some e, s') \<and> operands is_op sub ts s' xs)"

definition fold_ops :: "B_tree_node \<Rightarrow> (Ops \<times> B_tree_node \<times> pstate) list \<Rightarrow> B_tree_node" where
  "fold_ops val xs = foldl (\<lambda>l x. CR_OP (fst x) l (fst (snd x))) val xs"

definition end_state :: "pstate \<Rightarrow> (Ops \<times> B_tree_node \<times> pstate) list \<Rightarrow> pstate" where
  "end_state s xs = last (s # map (\<lambda>x. snd (snd x)) xs)"

text \<open>The tokens of \<open>2^3^2\<close> and of \<open>2+3*4\<close>, each followed by a semicolon.\<close>

definition pow_2_3_2 :: "token list" where
  "pow_2_3_2 = [tNUM 2, tOP POW, tNUM 3, tOP POW, tNUM 2, tSYM SMC]"

definition stmt_2_3_4 :: "token list" where
  "stmt_2_3_4 = [tNUM 2, tOP ADD, tNUM 3, tOP MUL, tNUM 4, tSYM SMC]"

text \<open>
  The levels of the expression grammar, read off a tree. A node with two children is an
  operator node; a node with none is \<open>atomic\<close>. \<open>pow_level\<close> holds of an atom and
  of a \<open>^\<close> node whose left operand is at the power level and whose right operand is an
  atom; \<open>mul_level\<close> adds the \<open>*\<close> and \<open>/\<close> nodes whose left operand is at the
  multiplicative level and whose right operand is at the power level; \<open>add_level\<close> adds
  the \<open>+\<close> and \<open>-\<close> nodes whose left operand is at the additive level and whose right
  operand is at the multiplicative level. So in a tree at the additive level no \<open>+\<close> or
  \<open>-\<close> stands anywhere below a \<open>*\<close>, \<open>/\<close> or \<open>^\<close>.
\<close>

definition atomic :: "B_tree_node \<Rightarrow> bool" where
  "atomic e = (left e = None \<and> right e = None)"

fun pow_level :: "B_tree_node \<Rightarrow> bool" where
  "pow_level (Node t v (Some l) (Some r)) = (t = OP \<and> v = OpV POW \<and> pow_level l \<and> atomic r)"
| "pow_level (Node t v l r) = atomic (Node t v l r)"

fun mul_level :: "B_tree_node \<Rightarrow> bool" where
  "mul_level (Node t v (Some l) (Some r)) =
     (t = OP \<and> ((v = OpV MUL \<or> v = OpV DIV) \<and> mul_level l \<and> pow_level r
               \<or> v = OpV POW \<and> pow_level l \<and> atomic r))"
| "mul_level (Node t v l r) = atomic (Node t v l r)"

fun add_level :: "B_tree_node \<Rightarrow> bool" where
  "add_level (Node t v (Some l) (Some r)) =
     (t = OP \<and> ((v = OpV ADD \<or> v = OpV SUB) \<and> add_level l \<and> mul_level r
               \<or> (v = OpV MUL \<or> v = OpV DIV) \<and> mul_level l \<and> pow_level r
               \<or> v = OpV POW \<and> pow_level l \<and> atomic r))"
| "add_level (Node t v l r) = atomic (Node t v l r)"

text \<open>A token array without an open parenthesis.\<close>

definition no_paren :: "token list \<Rightarrow> bool" where
  "no_paren ts = (\<forall>t\<in>set ts. ttype t \<noteq> OBR)"

text \<open>The tokens of \<open>2+3*4\<close>, and the two trees it could be read as.\<close>

definition expr_2_3_4 :: "token list" where
  "expr_2_3_4 = [tNUM 2, tOP ADD, tNUM 3, tOP MUL, tNUM 4]"

definition tree_2_plus_3x4 :: "B_tree_node" where
  "tree_2_plus_3x4 =
     CR_OP ADD (CR_NUM 2 None None) (CR_OP MUL (CR_NUM 3 None None) (CR_NUM 4 None None))"

definition tree_2plus3_x_4 :: "B_tree_node" where
  "tree_2plus3_x_4 =
     CR_OP MUL (CR_OP ADD (CR_NUM 2 None None) (CR_NUM 3 None None)) (CR_NUM 4 None None)"

text \<open>
  Modelled from the spec: the numeric evaluation of an expression tree is missing, the
  source holds no evaluator. A number node has its value, an operator node the value of its
  operator on the values of its two operands. A tree that is not an expression of numbers
  has no value.
\<close>

fun apply_op :: "Ops \<Rightarrow> real \<Rightarrow> real \<Rightarrow> real option" where
  "apply_op ADD x y = Some (x + y)"
| "apply_op SUB x y = Some (x - y)"
| "apply_op MUL x y = Some (x * y)"
| "apply_op DIV x y = (if y = 0 then None else Some (x / y))"
| "apply_op POW x y = Some (x powr y)"
| "apply_op ASS x y = None"

fun eval :: "B_tree_node \<Rightarrow> real option" where
  "eval (Node t v (Some l) (Some r)) =
     (case (t, v, eval l, eval r) of
        (OP, OpV op, Some x, Some y) \<Rightarrow> apply_op op x y
      | _ \<Rightarrow> None)"
| "eval (Node t v None None) = (case (t, v) of (NUM, NumV x) \<Rightarrow> Some x | _ \<Rightarrow> None)"
| "eval (Node t v l r) = None"

subsection \<open>Statements the claims speak of\<close>

text \<open>
  \<open>{ if (x) { y = 1 } }\<close> and \<open>{ x = 1; y = 2 }\<close>: in each the semicolon that must end
  the last assignment is missing.
\<close>

definition if_no_semicolon :: "token list" where
  "if_no_semicolon =
     [tSYM OCBR, tKWD ''if'', tSYM OBR, tVAR ''x'', tSYM CBR,
      tSYM OCBR, tVAR ''y'', tOP ASS, tNUM 1, tSYM CCBR, tSYM CCBR]"

definition second_no_semicolon :: "token list" where
  "second_no_semicolon =
     [tSYM OCBR, tVAR ''x'', tOP ASS, tNUM 1, tSYM SMC,
      tVAR ''y'', tOP ASS, tNUM 2, tSYM CCBR]"

text \<open>
  A sub-scope \<open>{ v = x; }\<close> holding one assignment of a number, the node it is parsed
  into, and an enclosing scope \<open>{ { v\<^sub>1 = x\<^sub>1; } ... { v\<^sub>k = x\<^sub>k; } }\<close> of consecutive
  sub-scopes, none followed by a statement.
\<close>

definition assign_node :: "string \<times> real \<Rightarrow> B_tree_node" where
  "assign_node b = CR_ASS (CR_VAR (fst b) None None) (CR_NUM (snd b) None None)"

definition sub_scope :: "string \<times> real \<Rightarrow> token list" where
  "sub_scope b = [tSYM OCBR, tVAR (fst b), tOP ASS, tNUM (snd b), tSYM SMC, tSYM CCBR]"

definition sub_scope_node :: "string \<times> real \<Rightarrow> B_tree_node" where
  "sub_scope_node b = Node SCS NoV (Some (assign_node b)) None"

definition nested_scopes :: "(string \<times> real) list \<Rightarrow> token list" where
  "nested_scopes bs = tSYM OCBR # concat (map sub_scope bs) @ [tSYM CCBR]"

text \<open>The number of nodes of a tag in a tree.\<close>

primrec count_type :: "Node_type \<Rightarrow> B_tree_node \<Rightarrow> nat" where
  "count_type ty (Node t v l r) =
     (if t = ty then 1 else 0)
     + (case map_option (count_type ty) l of None \<Rightarrow> 0 | Some k \<Rightarrow> k)
     + (case map_option (count_type ty) r of None \<Rightarrow> 0 | Some k \<Rightarrow> k)"

text \<open>
  A statement is what \<open>get_cmd\<close> parses; no production below \<open>get_cmd\<close> calls
  \<open>get_scope\<close>. \<open>in_stmt p\<close> holds of these productions when the trees that \<open>p\<close> holds
  (a loop holds the tree built so far) have no node \<open>SCE\<close>, and \<open>keeps_no_debt\<close> says of a
  run of such a production that starts without debt that it ends without debt and
  returns no node \<open>SCE\<close>.
\<close>

definition no_SCE :: "B_tree_node option \<Rightarrow> bool" where
  "no_SCE x = (case x of None \<Rightarrow> True | Some t \<Rightarrow> count_type SCE t = 0)"

fun in_stmt :: "production \<Rightarrow> bool" where
  "in_stmt Get_scope = False"
| "in_stmt (Scope_loop d rt c) = False"
| "in_stmt (Cond_loop kw b rt d) = (no_SCE (Some b) \<and> no_SCE rt)"
| "in_stmt (Add_loop v) = no_SCE (Some v)"
| "in_stmt (Mul_loop v) = no_SCE (Some v)"
| "in_stmt (Pow_loop v) = no_SCE (Some v)"
| "in_stmt p = True"

definition keeps_no_debt :: "production \<Rightarrow> pstate \<Rightarrow> B_tree_node option \<Rightarrow> pstate \<Rightarrow> bool" where
  "keeps_no_debt p s x s' =
     (if in_stmt p \<and> sce_debt s = 0 then sce_debt s' = 0 \<and> no_SCE x else True)"

text \<open>
  The items of a scope behind its first one, as the loop of \<open>get_scope\<close> meets them:
  \<open>scope_items n ts s xs\<close> holds when, from the globals \<open>s\<close> on, there is for each entry
  of \<open>xs\<close> a token other than the close brace, from which \<open>get_scope\<close> returns the
  entry's tree and ends in the entry's globals, and then the close brace. \<open>behind\<close> is
  the globals behind the last item, \<open>chain\<close> the tree the loop builds, each item at the
  end of the chain of the items before it, and \<open>after_close\<close> is what the close of a scope
  does to the globals.
\<close>

fun scope_items :: "nat \<Rightarrow> token list \<Rightarrow> pstate \<Rightarrow> (B_tree_node \<times> pstate) list \<Rightarrow> bool" where
  "scope_items n ts s [] = (tok_id s < length ts \<and> ttype (ts ! tok_id s) = CCBR)"
| "scope_items n ts s ((u, s') # xs) =
     (tok_id s < length ts \<and> ttype (ts ! tok_id s) \<noteq> CCBR \<and>
      get_scope n ts s = Returns (Some u, s') \<and> scope_items n ts s' xs)"

definition behind :: "pstate \<Rightarrow> (B_tree_node \<times> pstate) list \<Rightarrow> pstate" where
  "behind s xs = last (s # map snd xs)"

definition chain :: "B_tree_node \<Rightarrow> B_tree_node list \<Rightarrow> B_tree_node" where
  "chain rt us = foldl (\<lambda>t u. scope_end_assign t (Some u)) rt us"

definition after_close :: "pstate \<Rightarrow> pstate" where
  "after_close s = id_incr (s\<lparr>sce_debt := sce_debt s + 1\<rparr>)"

text \<open>
  A sub-scope that holds statements only, and no scope: \<open>flat_scope n ts s cs\<close> holds
  when the token under the cursor of
  \<open>s\<close> is an open brace and behind it the token array reads as one statement for each
  entry of \<open>cs\<close>, at least one, and then the close brace. A statement starts with a
  token that is not an open brace and, behind the first statement, not the close brace,
  and \<open>get_cmd\<close> (with the fuel \<open>n\<close>) parses it from the globals behind the statement
  before it into the entry's tree, ending in the entry's globals.
\<close>

fun stmts :: "nat \<Rightarrow> token list \<Rightarrow> pstate \<Rightarrow> (B_tree_node \<times> pstate) list \<Rightarrow> bool" where
  "stmts n ts s [] = (tok_id s < length ts \<and> ttype (ts ! tok_id s) = CCBR)"
| "stmts n ts s ((c, s') # cs) =
     (tok_id s < length ts \<and> ttype (ts ! tok_id s) \<noteq> CCBR \<and> ttype (ts ! tok_id s) \<noteq> OCBR \<and>
      get_cmd n ts s = Returns (Some c, s') \<and> stmts n ts s' cs)"

fun flat_scope :: "nat \<Rightarrow> token list \<Rightarrow> pstate \<Rightarrow> (B_tree_node \<times> pstate) list \<Rightarrow> bool" where
  "flat_scope n ts s [] = False"
| "flat_scope n ts s ((c, s') # cs) =
     (tok_id s < length ts \<and> ttype (ts ! tok_id s) = OCBR \<and>
      Suc (tok_id s) < length ts \<and> ttype (ts ! Suc (tok_id s)) \<noteq> OCBR \<and>
      get_cmd n ts (id_incr (s\<lparr>sce_debt := 0\<rparr>)) = Returns (Some c, s') \<and> stmts n ts s' cs)"

text \<open>
  The tree of such a sub-scope entered without debt: its statements in a chain, the
  first of them tagged by \<open>mark_scope\<close>.
\<close>

definition flat_scope_tree :: "(B_tree_node \<times> pstate) list \<Rightarrow> B_tree_node" where
  "flat_scope_tree cs = mark_scope (chain (fst (hd cs)) (map fst (tl cs)))"

text \<open>
  Consecutive sub-scopes of this kind up to the close brace of the scope that holds them:
  each starts in the globals that the close of the one before it leaves, \<open>after_scopes\<close>
  is the globals behind the last. \<open>flat_scopes_tree d css\<close> is the tree of the enclosing scope
  entered with the debt \<open>d\<close>: the tree of the first sub-scope, at the end of its chain
  the tree of each further one under a node \<open>SCE\<close>, all under a node \<open>SCS\<close> and under \<open>d\<close>
  nodes \<open>SCE\<close>.
\<close>

fun flat_scopes :: "nat \<Rightarrow> token list \<Rightarrow> pstate \<Rightarrow> (B_tree_node \<times> pstate) list list \<Rightarrow> bool" where
  "flat_scopes n ts s [] = (tok_id s < length ts \<and> ttype (ts ! tok_id s) = CCBR)"
| "flat_scopes n ts s (cs # css) =
     (flat_scope n ts s cs \<and> flat_scopes n ts (after_close (behind s cs)) css)"

fun after_scopes :: "pstate \<Rightarrow> (B_tree_node \<times> pstate) list list \<Rightarrow> pstate" where
  "after_scopes s [] = s"
| "after_scopes s (cs # css) = after_scopes (after_close (behind s cs)) css"

definition flat_scopes_tree :: "nat \<Rightarrow> (B_tree_node \<times> pstate) list list \<Rightarrow> B_tree_node" where
  "flat_scopes_tree d css =
     pay_scope_debt d
       (CR_SCS None
          (Some (chain (flat_scope_tree (hd css))
                   (map (\<lambda>cs. CR_SCE None (Some (flat_scope_tree cs))) (tl css)))))"

text \<open>
  \<open>{ { a = b; } { x = 1; if (x) { y = 2 + 3; } } }\<close>: a scope of two sub-scopes that hold
  statements only, and the trees of the three statements. The braces behind \<open>if (x)\<close>
  are read by \<open>get_cond\<close>; they are no scope of \<open>get_scope\<close>.
\<close>

definition two_sub_scopes :: "token list" where
  "two_sub_scopes =
     [tSYM OCBR,
      tSYM OCBR, tVAR ''a'', tOP ASS, tVAR ''b'', tSYM SMC, tSYM CCBR,
      tSYM OCBR, tVAR ''x'', tOP ASS, tNUM 1, tSYM SMC,
      tKWD ''if'', tSYM OBR, tVAR ''x'', tSYM CBR,
      tSYM OCBR, tVAR ''y'', tOP ASS, tNUM 2, tOP ADD, tNUM 3, tSYM SMC, tSYM CCBR,
      tSYM CCBR,
      tSYM CCBR]"

definition stmt_a_b :: B_tree_node where
  "stmt_a_b = CR_SMC (Some (CR_ASS (CR_VAR ''a'' None None) (CR_VAR ''b'' None None))) None"

definition stmt_x_1 :: B_tree_node where
  "stmt_x_1 = CR_SMC (Some (CR_ASS (CR_VAR ''x'' None None) (CR_NUM 1 None None))) None"

definition stmt_if :: B_tree_node where
  "stmt_if =
     CR_SMC
       (Some (CR_KWD ''if'' (Some (CR_VAR ''x'' None None))
          (Some (CR_SMC
             (Some (CR_ASS (CR_VAR ''y'' None None)
                      (CR_OP ADD (CR_NUM 2 None None) (CR_NUM 3 None None))))
             None))))
       None"

subsection \<open>The chain walk on the store\<close>

text \<open>
  \<open>get_scope_end\<close> follows pointers, so for it the nodes live in a store: an address
  holds a node whose two children are addresses or null. A chain that runs into a cycle is
  never left by the loop, and a pointer to no node cannot be read.
\<close>

type_synonym addr = nat

record node_cell =
  c_type :: Node_type
  c_value :: "Value"
  c_left :: "addr option"
  c_right :: "addr option"

type_synonym store = "addr \<Rightarrow> node_cell option"

text \<open>
  The loop \<open>while(root->right != NULL) root = root->right;\<close> and the \<open>return root\<close>
  behind it. A result \<open>None\<close> means that the loop does not end.
\<close>

partial_function (option) scope_end_walk :: "store \<Rightarrow> addr \<Rightarrow> addr outcome option" where
  "scope_end_walk h a =
     (case h a of
        None \<Rightarrow> Some Crash
      | Some c \<Rightarrow>
          (case c_right c of
             None \<Rightarrow> Some (Returns a)
           | Some b \<Rightarrow> scope_end_walk h b))"

text \<open>The function returns the node found; the store is handed back as it is left.\<close>

definition get_scope_end :: "store \<Rightarrow> addr option \<Rightarrow> (addr option \<times> store) outcome option" where
  "get_scope_end h root_ptr =
     (case root_ptr of
        None \<Rightarrow> Some (Returns (None, h))
      | Some a \<Rightarrow>
          (case scope_end_walk h a of
             None \<Rightarrow> None
           | Some (Returns e) \<Rightarrow> Some (Returns (Some e, h))
           | Some Crash \<Rightarrow> Some Crash
           | Some NoFuel \<Rightarrow> Some NoFuel))"

text \<open>
  \<open>right_chain h as\<close>: the addresses \<open>as\<close>, in this order, are a chain of nodes of the
  store linked by \<open>right\<close>, and the last of them has no right child.
\<close>

fun right_chain :: "store \<Rightarrow> addr list \<Rightarrow> bool" where
  "right_chain h [] = False"
| "right_chain h [a] = (case h a of None \<Rightarrow> False | Some c \<Rightarrow> c_right c = None)"
| "right_chain h (a # b # as) =
     ((case h a of None \<Rightarrow> False | Some c \<Rightarrow> c_right c = Some b) \<and> right_chain h (b # as))"

text \<open>Three nodes at the addresses 1, 2 and 3, linked in this order.\<close>

definition three_cells :: store where
  "three_cells =
     (Map.empty
       (1 \<mapsto> \<lparr>c_type = SCS, c_value = NoV, c_left = None, c_right = Some 2\<rparr>,
        2 \<mapsto> \<lparr>c_type = SMC, c_value = NoV, c_left = None, c_right = Some 3\<rparr>,
        3 \<mapsto> \<lparr>c_type = SMC, c_value = NoV, c_left = None, c_right = None\<rparr>))"

text \<open>
  \<open>tree_cells h p t A\<close>: in the store \<open>h\<close> the pointer \<open>p\<close> is the root of the tree \<open>t\<close>,
  whose nodes are the cells at the addresses \<open>A\<close>, each of them reached once. This is how
  the trees of the parser lie in memory: every node comes from its own allocation.
\<close>

inductive tree_cells :: "store \<Rightarrow> addr option \<Rightarrow> B_tree_node option \<Rightarrow> addr set \<Rightarrow> bool" where
  null: "tree_cells h None None {}"
| cell: "h a = Some c \<Longrightarrow> tree_cells h (c_left c) l L \<Longrightarrow> tree_cells h (c_right c) r R \<Longrightarrow>
         a \<notin> L \<union> R \<Longrightarrow> L \<inter> R = {} \<Longrightarrow>
         tree_cells h (Some a) (Some (Node (c_type c) (c_value c) l r)) (insert a (L \<union> R))"

text \<open>
  The two statements of the loop of \<open>get_scope\<close> on the store:
  \<open>scope_end = get_scope_end(cur_node); scope_end->right = x;\<close>. The store through a null
  \<open>scope_end\<close> is undefined behaviour.
\<close>

definition assign_scope_end :: "store \<Rightarrow> addr option \<Rightarrow> addr option \<Rightarrow> store outcome option" where
  "assign_scope_end h cur_node x =
     (case get_scope_end h cur_node of
        None \<Rightarrow> None
      | Some (Returns (scope_end, h')) \<Rightarrow>
          (case scope_end of
             None \<Rightarrow> Some Crash
           | Some e \<Rightarrow>
               (case h' e of
                  None \<Rightarrow> Some Crash
                | Some c \<Rightarrow> Some (Returns (h'(e \<mapsto> c\<lparr>c_right := x\<rparr>)))))
      | Some Crash \<Rightarrow> Some Crash
      | Some NoFuel \<Rightarrow> Some NoFuel)"

section \<open>The assembler (assembler\_additional.h)\<close>

text \<open>
  The header holds the constants, the two I/O checks and the declarations of the
  assembler's functions; the functions' bodies are not part of the source at hand.
\<close>

subsection \<open>Constants and the I/O checks of the header\<close>

type_synonym byte = "8 word"

text \<open>The sizes behind the constants, as on the platforms the toolchain is built for.\<close>

definition sizeof_char :: nat where
  "sizeof_char = 1"

definition sizeof_int :: nat where
  "sizeof_int = 4"

definition sizeof_double :: nat where
  "sizeof_double = 8"

definition ALIGN_TO_INT :: nat where
  "ALIGN_TO_INT = sizeof_int - sizeof_char"

definition ALIGN_TO_DOUBLE :: nat where
  "ALIGN_TO_DOUBLE = sizeof_double - sizeof_char"

definition MAIN_JMP_NAME :: string where
  "MAIN_JMP_NAME = ''main''"

definition POISON_JMP_POS :: "32 word" where
  "POISON_JMP_POS = - 1"

text \<open>
  The error codes. \<open>asm_err_t\<close> is declared in assembler.h, which is not at hand; the
  header names \<open>ASM_INVALID_FREAD\<close> and \<open>ASM_INVALID_FWRITE\<close>, the other two kinds bear
  the names the spec gives them.
\<close>

datatype asm_err_t =
    ASM_INVALID_FREAD
  | ASM_INVALID_FWRITE
  | UnresolvedLabelError string
  | MissingEntryLabelError

text \<open>
  \<open>FREAD_CHECK(read_elems, amount)\<close> and \<open>FWRITE_CHECK(written_elems, amount)\<close>: a
  statement of the enclosing function. When the two counts (of type \<open>size_t\<close>) differ,
  the function logs and returns the error code; else it goes on with \<open>rest\<close>, the
  statements after the check.
\<close>

definition FREAD_CHECK :: "64 word \<Rightarrow> 64 word \<Rightarrow> asm_err_t + 'a \<Rightarrow> asm_err_t + 'a" where
  "FREAD_CHECK read_elems amount rest =
     (if read_elems \<noteq> amount then Inl ASM_INVALID_FREAD else rest)"

definition FWRITE_CHECK :: "64 word \<Rightarrow> 64 word \<Rightarrow> asm_err_t + 'a \<Rightarrow> asm_err_t + 'a" where
  "FWRITE_CHECK written_elems amount rest =
     (if written_elems \<noteq> amount then Inl ASM_INVALID_FWRITE else rest)"

subsection \<open>The byte buffer and the writes to it\<close>

text \<open>
  Modelled from the spec: the struct \<open>Buffer_w_info\<close> is missing, it is declared in a
  header that is not at hand. A byte buffer is a growable byte sequence with a logical
  fill size, every write appends at the carriage and growth keeps what was written. So a
  buffer is the list of the bytes written, and its length is the next write offset.
\<close>

type_synonym Buffer_w_info = "byte list"

text \<open>
  Modelled from the spec: the bodies of \<open>write_to_buf\<close>, \<open>align_buffer\<close> and
  \<open>write_char_w_alignment\<close> are missing. By the header, \<open>write_to_buf\<close> writes the bytes
  of a value, \<open>align_buffer\<close> adds \<open>amount_of_bytes\<close> bytes equal to zero, and
  \<open>write_char_w_alignment\<close> writes a character followed by \<open>alignment_space\<close> alignment
  bytes.
\<close>

definition write_to_buf :: "Buffer_w_info \<Rightarrow> byte list \<Rightarrow> Buffer_w_info" where
  "write_to_buf byte_code val = byte_code @ val"

definition align_buffer :: "Buffer_w_info \<Rightarrow> nat \<Rightarrow> Buffer_w_info" where
  "align_buffer b amount_of_bytes = b @ replicate amount_of_bytes 0"

definition write_char_w_alignment :: "Buffer_w_info \<Rightarrow> byte \<Rightarrow> nat \<Rightarrow> Buffer_w_info" where
  "write_char_w_alignment byte_code val alignment_space =
     align_buffer (write_to_buf byte_code [val]) alignment_space"

text \<open>The bytes of an \<open>int\<close> and of a \<open>double\<close> (its eight-byte image), lowest first.\<close>

definition int_bytes :: "32 word \<Rightarrow> byte list" where
  "int_bytes w = map (\<lambda>k. ucast (drop_bit (8 * k) w)) [0, 1, 2, 3]"

definition double_bytes :: "64 word \<Rightarrow> byte list" where
  "double_bytes w = map (\<lambda>k. ucast (drop_bit (8 * k) w)) [0, 1, 2, 3, 4, 5, 6, 7]"

text \<open>
  Modelled from the spec: the emission of an instruction (in \<open>cmds_process\<close>) is missing.
  An instruction is written as its one-byte opcode and then its operand, with padding
  bytes between the two so that the operand begins at an offset aligned to the operand's
  natural size. \<open>padding_to sz pos\<close> is the number of bytes from the offset \<open>pos\<close> to
  the next multiple of \<open>sz\<close>; \<open>write_instr\<close> takes the natural size of the operand and
  the operand as its bytes.
\<close>

definition padding_to :: "nat \<Rightarrow> nat \<Rightarrow> nat" where
  "padding_to sz pos = (sz - pos mod sz) mod sz"

definition write_instr :: "Buffer_w_info \<Rightarrow> byte \<Rightarrow> nat \<Rightarrow> byte list \<Rightarrow> Buffer_w_info" where
  "write_instr byte_code opcode sz operand =
     write_to_buf
       (write_char_w_alignment byte_code opcode
          (padding_to sz (length byte_code + sizeof_char)))
       operand"

definition emit_int :: "Buffer_w_info \<Rightarrow> byte \<Rightarrow> 32 word \<Rightarrow> Buffer_w_info" where
  "emit_int byte_code opcode operand =
     write_instr byte_code opcode sizeof_int (int_bytes operand)"

definition emit_double :: "Buffer_w_info \<Rightarrow> byte \<Rightarrow> 64 word \<Rightarrow> Buffer_w_info" where
  "emit_double byte_code opcode operand =
     write_instr byte_code opcode sizeof_double (double_bytes operand)"

text \<open>
  Modelled from the spec: the body of \<open>mask_buffer\<close> is missing. The mask is applied to
  every byte of the buffer by exclusive or.
\<close>

definition mask_buffer :: "Buffer_w_info \<Rightarrow> byte \<Rightarrow> Buffer_w_info" where
  "mask_buffer byte_code msk = map (\<lambda>x. x XOR msk) byte_code"

subsection \<open>Labels, jumps and the three passes\<close>

text \<open>
  The structs of the header. A table with its carriage (\<open>Labels_w_carriage\<close>,
  \<open>JMP_poses_w_carriage\<close>) is the list of the entries written so far; of the manager,
  the two tables and the byte code are kept.
\<close>

record Label =
  name :: string
  IP_pos :: nat

record JMP_pos =
  jmp_name :: string
  jmp_IP_pos :: nat

record Compile_manager =
  labels :: "Label list"
  jmp_poses :: "JMP_pos list"
  byte_code :: Buffer_w_info

text \<open>
  The mnemonic text, token by token: a label definition \<open>name:\<close>, a jump or call to a
  label by name, an instruction with an integer or with a floating-point operand (the
  operand as the bytes of its value), or an instruction without operand. Every
  instruction comes with its opcode.
\<close>

datatype asm_item =
    Label_def string
  | Jump_to byte string
  | Int_instr byte "32 word"
  | Double_instr byte "64 word"
  | Plain_instr byte

text \<open>
  Modelled from the spec: the body of \<open>get_ip_pos\<close> is missing. By the header it is the
  current instruction pointer position based on the byte code buffer: the write offset.
\<close>

definition get_ip_pos :: "Compile_manager \<Rightarrow> nat" where
  "get_ip_pos manager = length (byte_code manager)"

text \<open>
  Modelled from the spec: the body of \<open>cmds_process\<close>, the emission pass, is missing. A
  label definition records the name with the current write offset in the label table. A
  jump or call is emitted as its opcode and a placeholder operand, an \<open>int\<close>, and the jump
  table records the target's name with the offset of the placeholder. Every other
  instruction is emitted with its operand.
\<close>

definition write_jmp :: "byte \<Rightarrow> string \<Rightarrow> Compile_manager \<Rightarrow> Compile_manager" where
  "write_jmp opcode target manager =
     manager
       \<lparr>jmp_poses := jmp_poses manager @
          [\<lparr>jmp_name = target,
            jmp_IP_pos = get_ip_pos manager + sizeof_char +
                         padding_to sizeof_int (get_ip_pos manager + sizeof_char)\<rparr>],
        byte_code := emit_int (byte_code manager) opcode POISON_JMP_POS\<rparr>"

fun cmd_process :: "Compile_manager \<Rightarrow> asm_item \<Rightarrow> Compile_manager" where
  "cmd_process manager (Label_def n) =
     manager\<lparr>labels := labels manager @ [\<lparr>name = n, IP_pos = get_ip_pos manager\<rparr>]\<rparr>"
| "cmd_process manager (Jump_to opcode target) = write_jmp opcode target manager"
| "cmd_process manager (Int_instr opcode operand) =
     manager\<lparr>byte_code := emit_int (byte_code manager) opcode operand\<rparr>"
| "cmd_process manager (Double_instr opcode operand) =
     manager\<lparr>byte_code := emit_double (byte_code manager) opcode operand\<rparr>"
| "cmd_process manager (Plain_instr opcode) =
     manager\<lparr>byte_code := write_to_buf (byte_code manager) [opcode]\<rparr>"

definition cmds_process :: "Compile_manager \<Rightarrow> asm_item list \<Rightarrow> Compile_manager" where
  "cmds_process manager items = foldl cmd_process manager items"

text \<open>
  Modelled from the spec: the body of \<open>arrange_labels\<close>, the resolution pass, is missing.
  Every jump reference is looked up in the label table by exact name, where the last
  definition of a name wins; a target that is absent is the unresolved-label error naming
  it, and the placeholder of a target that is found is patched with the label's offset.
\<close>

definition find_label :: "Label list \<Rightarrow> string \<Rightarrow> Label option" where
  "find_label ls n = find (\<lambda>l. name l = n) (rev ls)"

definition patch :: "Buffer_w_info \<Rightarrow> nat \<Rightarrow> byte list \<Rightarrow> Buffer_w_info" where
  "patch b pos bytes = take pos b @ bytes @ drop (pos + length bytes) b"

fun arrange_jmps :: "Label list \<Rightarrow> JMP_pos list \<Rightarrow> Buffer_w_info \<Rightarrow> asm_err_t + Buffer_w_info" where
  "arrange_jmps ls [] b = Inr b"
| "arrange_jmps ls (j # js) b =
     (case find_label ls (jmp_name j) of
        None \<Rightarrow> Inl (UnresolvedLabelError (jmp_name j))
      | Some l \<Rightarrow> arrange_jmps ls js (patch b (jmp_IP_pos j) (int_bytes (of_nat (IP_pos l)))))"

definition arrange_labels :: "Compile_manager \<Rightarrow> asm_err_t + Buffer_w_info" where
  "arrange_labels manager = arrange_jmps (labels manager) (jmp_poses manager) (byte_code manager)"

text \<open>
  Modelled from the spec: the body of \<open>write_main_jmp\<close> and the entry-point fix-up are
  missing. The entry jump is synthesized, it is no instruction of the text: it stands at
  the very start of the buffer, so \<open>write_main_jmp\<close> writes it, opcode and placeholder,
  before anything is emitted, and the offsets recorded during emission are those of the
  final buffer. The jump table holds the references of the jump and call instructions of
  the text, which the resolution pass resolves; \<open>write_main_jmp\<close> leaves it as it is.
  After the resolution pass the fix-up looks the reserved name up in the label table:
  its offset becomes the operand of the entry jump, and its absence is the error of the
  missing entry point. The opcode of the unconditional jump is a parameter.
\<close>

definition write_main_jmp :: "byte \<Rightarrow> Compile_manager \<Rightarrow> Compile_manager" where
  "write_main_jmp jmp_opcode manager =
     manager\<lparr>byte_code := emit_int (byte_code manager) jmp_opcode POISON_JMP_POS\<rparr>"

definition entry_fixup :: "Label list \<Rightarrow> Buffer_w_info \<Rightarrow> asm_err_t + Buffer_w_info" where
  "entry_fixup ls b =
     (case find_label ls MAIN_JMP_NAME of
        None \<Rightarrow> Inl MissingEntryLabelError
      | Some l \<Rightarrow> Inr (patch b (sizeof_char + ALIGN_TO_INT) (int_bytes (of_nat (IP_pos l)))))"

text \<open>
  Modelled from the spec: the body of \<open>init_manager\<close> and the operation \<open>assemble\<close> are
  missing. Assembly starts from empty tables and an empty buffer, writes the entry jump
  and emits the text (\<open>emitted\<close> is the manager after this pass); then come the resolution
  pass and the entry-point fix-up. It yields the buffer or the first error.
\<close>

definition init_manager :: Compile_manager where
  "init_manager = \<lparr>labels = [], jmp_poses = [], byte_code = []\<rparr>"

definition emitted :: "byte \<Rightarrow> asm_item list \<Rightarrow> Compile_manager" where
  "emitted jmp_opcode items = cmds_process (write_main_jmp jmp_opcode init_manager) items"

definition assemble :: "byte \<Rightarrow> asm_item list \<Rightarrow> asm_err_t + Buffer_w_info" where
  "assemble jmp_opcode items =
     (case arrange_labels (emitted jmp_opcode items) of
        Inl e \<Rightarrow> Inl e
      | Inr b \<Rightarrow> entry_fixup (labels (emitted jmp_opcode items)) b)"

text \<open>The names a text defines as labels, and the names it jumps to.\<close>

fun defined_label :: "asm_item \<Rightarrow> string option" where
  "defined_label (Label_def n) = Some n"
| "defined_label item = None"

fun jump_target :: "asm_item \<Rightarrow> string option" where
  "jump_target (Jump_to opcode n) = Some n"
| "jump_target item = None"

definition has_label :: "asm_item list \<Rightarrow> string \<Rightarrow> bool" where
  "has_label items n = (Some n \<in> set (map defined_label items))"

definition all_targets_defined :: "asm_item list \<Rightarrow> bool" where
  "all_targets_defined items =
     list_all (\<lambda>item. case jump_target item of None \<Rightarrow> True | Some n \<Rightarrow> has_label items n) items"

subsection \<open>Reading the text and writing the artifact\<close>

text \<open>
  Modelled from the spec: the functions that read and write files are missing, and so is
  what the C library does on their calls. The assembler performs one file read, of the
  mnemonic text, and one file write, of the byte code. Of the library, \<open>fread\<close> gives,
  for the number of elements asked for, the number of elements read and the content of
  the buffer, \<open>fwrite\<close> gives, for the bytes and the number of elements to write, the
  number of elements written, and \<open>file_length\<close> is the length of the file of the text.
\<close>

record file_io =
  file_length :: "64 word"
  fread :: "64 word \<Rightarrow> 64 word \<times> byte list"
  fwrite :: "byte list \<Rightarrow> 64 word \<Rightarrow> 64 word"

text \<open>
  Modelled from the spec: the body of \<open>parse_human_code\<close> is missing. By the header it
  reads the human-readable code from the file into its buffer: it asks for the whole
  file, checks the read with \<open>FREAD_CHECK\<close> and hands the text on.
\<close>

definition parse_human_code :: "file_io \<Rightarrow> asm_err_t + byte list" where
  "parse_human_code io =
     (let amount = file_length io;
          (read_elems, human_code) = fread io amount
      in FREAD_CHECK read_elems amount (Inr human_code))"

text \<open>
  Modelled from the spec: the body of \<open>create_bin\<close> is missing. By the header it creates
  the binary file of the byte code: it writes the bytes of the buffer and checks the
  write with \<open>FWRITE_CHECK\<close>; the bytes written are the artifact.
\<close>

definition create_bin :: "file_io \<Rightarrow> Buffer_w_info \<Rightarrow> asm_err_t + byte list" where
  "create_bin io b =
     (let amount = of_nat (length b);
          written_elems = fwrite io b amount
      in FWRITE_CHECK written_elems amount (Inr b))"

text \<open>
  Modelled from the spec: the driver of the assembler is missing. It reads the text,
  arranges its tokens (the tokenizer \<open>tokens\<close> is a collaborator, taken as a parameter),
  assembles, masks the finalized buffer and writes it. An error of any step is returned
  at once to the caller, and then there is no artifact.
\<close>

definition assemble_file ::
  "file_io \<Rightarrow> (byte list \<Rightarrow> asm_item list) \<Rightarrow> byte \<Rightarrow> byte \<Rightarrow> asm_err_t + byte list" where
  "assemble_file io tokens jmp_opcode msk =
     (case parse_human_code io of
        Inl e \<Rightarrow> Inl e
      | Inr human_code \<Rightarrow>
          (case assemble jmp_opcode (tokens human_code) of
             Inl e \<Rightarrow> Inl e
           | Inr b \<Rightarrow> create_bin io (mask_buffer b msk)))"

text \<open>
  Two libraries: one whose read of a file of four bytes gives three elements, and one
  that reads what is asked for but reports one element more than it was to write.
\<close>

definition short_read :: file_io where
  "short_read =
     \<lparr>file_length = 4, fread = (\<lambda>amount. (3, [109, 97, 105])), fwrite = (\<lambda>b amount. amount)\<rparr>"

definition long_write :: file_io where
  "long_write =
     \<lparr>file_length = 4, fread = (\<lambda>amount. (amount, [109, 97, 105, 110])),
      fwrite = (\<lambda>b amount. amount + 1)\<rparr>"


lemmas production_defs =
  get_scope_def get_cmd_def get_cond_def get_ass_def get_add_def get_mul_def get_par_def
  get_id_def get_pow_def scope_loop_def cond_loop_def add_loop_def mul_loop_def pow_loop_def

subsection \<open>The productions, unfolded once\<close>

lemma get_scope_Suc:
  "get_scope (Suc n) ts s =
     CUR ts s (\<lambda>t.
       if ttype t = OCBR then
         CHECK_RET (get_scope n ts (id_incr (s\<lparr>sce_debt := 0\<rparr>))) (\<lambda>rt s1.
           scope_loop n ts (sce_debt s) rt (Some 0) s1)
       else
         CHECK_RET (get_cmd n ts s) (\<lambda>rt s1. Returns (Some rt, s1)))"
  by (simp add: production_defs Let_def cong: if_cong option.case_cong)

lemma scope_loop_Suc:
  "scope_loop (Suc n) ts scope_sce_debt rt cur_node s =
     CUR ts s (\<lambda>t.
       if ttype t \<noteq> CCBR then
         call (get_scope n ts s) (\<lambda>x s1.
           case cur_node of
             None \<Rightarrow> Crash
           | Some d \<Rightarrow>
               scope_loop n ts scope_sce_debt (scope_end_assign rt x)
                 (step_right (scope_end_assign rt x) d) s1)
       else scope_close scope_sce_debt rt s)"
  by (simp add: production_defs Let_def cong: if_cong option.case_cong)

lemma get_cmd_Suc:
  "get_cmd (Suc n) ts s =
     CUR ts s (\<lambda>t.
       if ttype t = KWD then
         CHECK_RET (get_cond n ts s) (\<lambda>cmd s1. pay_cmd_debt cmd s1)
       else
         CHECK_RET (get_ass n ts s) (\<lambda>cmd s1.
           CUR ts s1 (\<lambda>t1.
             if ttype t1 = SMC then pay_cmd_debt cmd (id_incr s1)
             else SYNTAX_ERROR s1)))"
  by (simp add: production_defs Let_def cong: if_cong option.case_cong)

lemma get_cond_Suc:
  "get_cond (Suc n) ts s =
     CHECK_RET (get_id n ts s) (\<lambda>kwd s1.
       if \<not> is_cond_kwd (node_var_value kwd) then SYNTAX_ERROR s1
       else
         CUR ts s1 (\<lambda>t1.
           if ttype t1 = OBR then
             CHECK_RET (get_add n ts (id_incr s1)) (\<lambda>br_expr s2.
               CUR ts s2 (\<lambda>t2.
                 if ttype t2 = CBR then
                   CUR ts (id_incr s2) (\<lambda>t3.
                     if ttype t3 = OCBR then
                       call (get_cmd n ts (id_incr (id_incr s2))) (\<lambda>rt s4.
                         cond_loop n ts (node_var_value kwd) br_expr rt 0 s4)
                     else
                       CHECK_RET (get_cmd n ts (id_incr s2)) (\<lambda>cmd s4.
                         Returns (Some (CR_KWD (node_var_value kwd) (Some br_expr) (Some cmd)), s4)))
                 else SYNTAX_ERROR s2))
           else SYNTAX_ERROR s1))"
  by (simp add: production_defs Let_def cong: if_cong option.case_cong)

lemma cond_loop_Suc:
  "cond_loop (Suc n) ts kwd_name br_expr rt d s =
     CUR ts s (\<lambda>t.
       if ttype t \<noteq> CCBR then
         call (get_cmd n ts s) (\<lambda>x s1.
           case rt of
             None \<Rightarrow> Crash
           | Some r \<Rightarrow>
               (case x of
                  None \<Rightarrow> Returns (None, s1)
                | Some c \<Rightarrow>
                    cond_loop n ts kwd_name br_expr (Some (right_assign_at r d x)) (Suc d) s1))
       else Returns (Some (CR_KWD kwd_name (Some br_expr) rt), id_incr s))"
  by (simp add: production_defs Let_def cong: if_cong option.case_cong)

lemma get_ass_Suc:
  "get_ass (Suc n) ts s =
     CHECK_RET (get_id n ts s) (\<lambda>var s1.
       CUR ts s1 (\<lambda>t1.
         if ttype t1 = OP \<and> op_value t1 = ASS then
           CHECK_RET (get_add n ts (id_incr s1)) (\<lambda>expr s2.
             Returns (Some (CR_ASS var expr), s2))
         else SYNTAX_ERROR s1))"
  by (simp add: production_defs Let_def cong: if_cong option.case_cong)

lemma get_add_Suc:
  "get_add (Suc n) ts s = CHECK_RET (get_mul n ts s) (\<lambda>val s1. add_loop n ts val s1)"
  by (simp add: production_defs Let_def cong: if_cong option.case_cong)

lemma add_loop_Suc:
  "add_loop (Suc n) ts val s =
     CUR ts s (\<lambda>t.
       if is_add_sub t then
         CHECK_RET (get_mul n ts (id_incr s)) (\<lambda>val_2 s1.
           add_loop n ts (CR_OP (op_value t) val val_2) s1)
       else Returns (Some val, s))"
  by (simp add: production_defs Let_def cong: if_cong option.case_cong)

lemma get_mul_Suc:
  "get_mul (Suc n) ts s = CHECK_RET (get_pow n ts s) (\<lambda>val s1. mul_loop n ts val s1)"
  by (simp add: production_defs Let_def cong: if_cong option.case_cong)

lemma mul_loop_Suc:
  "mul_loop (Suc n) ts val s =
     CUR ts s (\<lambda>t.
       if is_mul_div t then
         CHECK_RET (get_pow n ts (id_incr s)) (\<lambda>val_2 s1.
           mul_loop n ts (CR_OP (op_value t) val val_2) s1)
       else Returns (Some val, s))"
  by (simp add: production_defs Let_def cong: if_cong option.case_cong)

lemma get_par_Suc:
  "get_par (Suc n) ts s =
     CUR ts s (\<lambda>t.
       if ttype t = OBR then
         CHECK_RET (get_add n ts (id_incr s)) (\<lambda>val s1.
           CUR ts s1 (\<lambda>t1.
             if ttype t1 = CBR then Returns (Some val, id_incr s1)
             else SYNTAX_ERROR s1))
       else if ttype t = NUM then
         CHECK_RET (get_num ts s) (\<lambda>val s1. Returns (Some val, s1))
       else
         CHECK_RET (get_id n ts s) (\<lambda>val s1. Returns (Some val, s1)))"
  by (simp add: production_defs Let_def cong: if_cong option.case_cong)

lemma get_id_Suc:
  "get_id (Suc n) ts s =
     CUR ts s (\<lambda>t.
       if ttype t = KWD then
         (if \<not> is_cond_kwd (var_value t) then
            CUR ts (id_incr s) (\<lambda>t1.
              if ttype t1 = OBR then
                CHECK_RET (get_add n ts (id_incr (id_incr s))) (\<lambda>child s2.
                  CUR ts s2 (\<lambda>t2.
                    if ttype t2 = CBR
                    then Returns (Some (CR_KWD (var_value t) None (Some child)), id_incr s2)
                    else SYNTAX_ERROR s2))
              else SYNTAX_ERROR (id_incr s))
          else Returns (Some (CR_KWD (var_value t) None None), id_incr s))
       else Returns (Some (CR_VAR (var_value t) None None), id_incr s))"
  by (simp add: production_defs Let_def cong: if_cong option.case_cong)

lemma get_pow_Suc:
  "get_pow (Suc n) ts s = CHECK_RET (get_par n ts s) (\<lambda>val s1. pow_loop n ts val s1)"
  by (simp add: production_defs Let_def cong: if_cong option.case_cong)

lemma pow_loop_Suc:
  "pow_loop (Suc n) ts val s =
     CUR ts s (\<lambda>t.
       if is_pow t then
         CHECK_RET (get_par n ts (id_incr s)) (\<lambda>val_2 s1.
           pow_loop n ts (CR_OP POW val val_2) s1)
       else Returns (Some val, s))"
  by (simp add: production_defs Let_def cong: if_cong option.case_cong)

lemma production_0 [simp]:
  "get_scope 0 ts s = NoFuel" "get_cmd 0 ts s = NoFuel" "get_cond 0 ts s = NoFuel"
  "get_ass 0 ts s = NoFuel" "get_add 0 ts s = NoFuel" "get_mul 0 ts s = NoFuel"
  "get_par 0 ts s = NoFuel" "get_id 0 ts s = NoFuel" "get_pow 0 ts s = NoFuel"
  "scope_loop 0 ts k rt c s = NoFuel" "cond_loop 0 ts kwd_name b rt' d s = NoFuel"
  "add_loop 0 ts val s = NoFuel" "mul_loop 0 ts val s = NoFuel" "pow_loop 0 ts val s = NoFuel"
  by (simp_all add: production_defs)

subsection \<open>Running the combinators\<close>

lemma CUR_in [simp]: "tok_id s < length ts \<Longrightarrow> CUR ts s f = f (ts ! tok_id s)"
  by (simp add: CUR_def)

lemma CUR_out [simp]: "\<not> tok_id s < length ts \<Longrightarrow> CUR ts s f = Crash"
  by (simp add: CUR_def)

lemma CHECK_RET_simps [simp]:
  "CHECK_RET (Returns (Some x, s)) f = f x s"
  "CHECK_RET (Returns (None, s)) f = Returns (None, s)"
  "CHECK_RET Crash f = Crash"
  "CHECK_RET NoFuel f = NoFuel"
  by (simp_all add: CHECK_RET_def call_def)

lemma call_simps [simp]:
  "call (Returns (x, s)) g = g x s"
  "call Crash g = Crash"
  "call NoFuel g = NoFuel"
  by (simp_all add: call_def)

lemma id_incr_simps [simp]:
  "tok_id (id_incr s) = Suc (tok_id s)"
  "sce_debt (id_incr s) = sce_debt s"
  by (simp_all add: id_incr_def)

lemma is_pow_tOP [simp]: "is_pow (tOP POW)"
  by (simp add: is_pow_def tOP_def)

lemma CUR_Returns:
  assumes "CUR ts s f = Returns r"
  obtains "tok_id s < length ts" and "f (ts ! tok_id s) = Returns r"
  using assms by (cases "tok_id s < length ts") auto

lemma CHECK_RET_Some:
  assumes "CHECK_RET m f = Returns (Some e, s')"
  obtains x s1 where "m = Returns (Some x, s1)" and "f x s1 = Returns (Some e, s')"
  using assms by (cases m) (auto simp: CHECK_RET_def call_def split: option.splits)

lemma SYNTAX_ERROR_Some [simp]: "SYNTAX_ERROR s \<noteq> Returns (Some e, s')"
  by (simp add: SYNTAX_ERROR_def)

lemma call_Returns:
  assumes "call m f = Returns r"
  obtains x s1 where "m = Returns (x, s1)" and "f x s1 = Returns r"
  using assms by (cases m) (auto simp: call_def)

subsection \<open>More fuel changes nothing\<close>

lemma fuel_le_refl [simp, intro!]: "fuel_le r r"
  by (simp add: fuel_le_def)

lemma fuel_le_NoFuel [simp, intro!]: "fuel_le NoFuel r"
  by (simp add: fuel_le_def)

lemma CUR_mono:
  "(\<And>t. fuel_le (f t) (g t)) \<Longrightarrow> fuel_le (CUR ts s f) (CUR ts s g)"
  by (simp add: CUR_def)

lemma call_mono:
  "fuel_le m m' \<Longrightarrow> (\<And>x s. fuel_le (f x s) (g x s)) \<Longrightarrow> fuel_le (call m f) (call m' g)"
  by (auto simp: fuel_le_def call_def split: outcome.splits)

lemma CHECK_RET_mono:
  "fuel_le m m' \<Longrightarrow> (\<And>x s. fuel_le (f x s) (g x s)) \<Longrightarrow>
     fuel_le (CHECK_RET m f) (CHECK_RET m' g)"
  unfolding CHECK_RET_def by (rule call_mono) (auto split: option.splits)

lemma if_mono:
  "(c \<Longrightarrow> fuel_le a a') \<Longrightarrow> (\<not> c \<Longrightarrow> fuel_le b b') \<Longrightarrow>
     fuel_le (if c then a else b) (if c then a' else b')"
  by simp

lemma option_case_mono:
  "(x = None \<Longrightarrow> fuel_le a a') \<Longrightarrow> (\<And>y. x = Some y \<Longrightarrow> fuel_le (f y) (g y)) \<Longrightarrow>
     fuel_le (case x of None \<Rightarrow> a | Some y \<Rightarrow> f y) (case x of None \<Rightarrow> a' | Some y \<Rightarrow> g y)"
  by (cases x) simp_all

lemmas mono_rules = CUR_mono call_mono CHECK_RET_mono if_mono option_case_mono

lemma parse_mono_body:
  assumes "\<And>p s. fuel_le (parse n ts p s) (parse m ts p s)"
  shows "fuel_le (parse (Suc n) ts p s) (parse (Suc m) ts p s)"
  by (cases p) (simp_all only: parse.simps production.case Let_def, (intro mono_rules assms fuel_le_refl)+)

lemma parse_mono_Suc: "fuel_le (parse n ts p s) (parse (Suc n) ts p s)"
proof (induction n arbitrary: p s)
  case 0
  show ?case by simp
next
  case (Suc n)
  show ?case by (rule parse_mono_body) (rule Suc.IH)
qed

lemma parse_mono_add: "fuel_le (parse n ts p s) (parse (n + k) ts p s)"
proof (induction k)
  case 0
  show ?case by simp
next
  case (Suc k)
  with parse_mono_Suc [of "n + k" ts p s] show ?case
    by (auto simp: fuel_le_def)
qed

lemma parse_mono:
  "parse n ts p s = Returns r \<Longrightarrow> parse (n + k) ts p s = Returns r"
proof (induction k)
  case 0
  then show ?case by simp
next
  case (Suc k)
  with parse_mono_Suc [of "n + k" ts p s] show ?case
    by (simp add: fuel_le_def)
qed

lemma production_mono:
  "get_par n ts s = Returns r \<Longrightarrow> get_par (n + k) ts s = Returns r"
  "get_pow n ts s = Returns r \<Longrightarrow> get_pow (n + k) ts s = Returns r"
  "get_mul n ts s = Returns r \<Longrightarrow> get_mul (n + k) ts s = Returns r"
  "get_add n ts s = Returns r \<Longrightarrow> get_add (n + k) ts s = Returns r"
  "get_scope n ts s = Returns r \<Longrightarrow> get_scope (n + k) ts s = Returns r"
  "get_cmd n ts s = Returns r \<Longrightarrow> get_cmd (n + k) ts s = Returns r"
  unfolding production_defs by (rule parse_mono, assumption)+

subsection \<open>Enough fuel\<close>

lemma CHECK_RET_Returns:
  assumes "CHECK_RET m f = Returns r"
  obtains (null) s1 where "m = Returns (None, s1)" "r = (None, s1)"
  | (node) x s1 where "m = Returns (Some x, s1)" "f x s1 = Returns r"
  using assms by (cases m) (auto simp: CHECK_RET_def call_def split: option.splits)

lemma pay_cmd_debt_tok:
  "pay_cmd_debt cmd s = Returns (x, s') \<Longrightarrow> tok_id s' = tok_id s"
  by (auto simp: pay_cmd_debt_def split: if_splits)

lemma parse_advances:
  "parse n ts p s = Returns (x, s') \<Longrightarrow> advanced p s s'"
proof (induction n arbitrary: p s x s')
  case 0
  then show ?case by simp
next
  case (Suc n)
  note IH = Suc.IH
  show ?case
  proof (cases p)
    case Get_scope
    with Suc.prems show ?thesis
      by (auto simp: advanced_def Let_def id_incr_def scope_close_def
          elim!: CUR_Returns CHECK_RET_Returns call_Returns
          dest!: IH split: if_splits)
  next
    case (Scope_loop d rt c)
    with Suc.prems show ?thesis
      by (auto simp: advanced_def Let_def id_incr_def scope_close_def
          elim!: CUR_Returns CHECK_RET_Returns call_Returns
          dest!: IH split: if_splits option.splits)
  next
    case Get_cmd
    with Suc.prems show ?thesis
      by (auto simp: advanced_def Let_def id_incr_def SYNTAX_ERROR_def
          elim!: CUR_Returns CHECK_RET_Returns call_Returns
          dest!: IH pay_cmd_debt_tok split: if_splits)
  next
    case Get_cond
    with Suc.prems show ?thesis
      by (auto simp: advanced_def Let_def id_incr_def SYNTAX_ERROR_def
          elim!: CUR_Returns CHECK_RET_Returns call_Returns
          dest!: IH split: if_splits)
  next
    case (Cond_loop kw b rt d)
    with Suc.prems show ?thesis
      by (auto simp: advanced_def Let_def id_incr_def
          elim!: CUR_Returns CHECK_RET_Returns call_Returns
          dest!: IH split: if_splits option.splits)
  next
    case Get_ass
    with Suc.prems show ?thesis
      by (auto simp: advanced_def Let_def id_incr_def SYNTAX_ERROR_def
          elim!: CUR_Returns CHECK_RET_Returns call_Returns
          dest!: IH split: if_splits)
  next
    case Get_add
    with Suc.prems show ?thesis
      by (auto simp: advanced_def elim!: CHECK_RET_Returns dest!: IH)
  next
    case (Add_loop v)
    with Suc.prems show ?thesis
      by (auto simp: advanced_def id_incr_def elim!: CUR_Returns CHECK_RET_Returns dest!: IH
          split: if_splits)
  next
    case Get_mul
    with Suc.prems show ?thesis
      by (auto simp: advanced_def elim!: CHECK_RET_Returns dest!: IH)
  next
    case (Mul_loop v)
    with Suc.prems show ?thesis
      by (auto simp: advanced_def id_incr_def elim!: CUR_Returns CHECK_RET_Returns dest!: IH
          split: if_splits)
  next
    case Get_par
    with Suc.prems show ?thesis
      by (auto simp: advanced_def id_incr_def SYNTAX_ERROR_def get_num_def
          elim!: CUR_Returns CHECK_RET_Returns dest!: IH split: if_splits)
  next
    case Get_id
    with Suc.prems show ?thesis
      by (auto simp: advanced_def Let_def id_incr_def SYNTAX_ERROR_def
          elim!: CUR_Returns CHECK_RET_Returns dest!: IH split: if_splits)
  next
    case Get_pow
    with Suc.prems show ?thesis
      by (auto simp: advanced_def elim!: CHECK_RET_Returns dest!: IH)
  next
    case (Pow_loop v)
    with Suc.prems show ?thesis
      by (auto simp: advanced_def id_incr_def elim!: CUR_Returns CHECK_RET_Returns dest!: IH
          split: if_splits)
  qed
qed

lemma CUR_NoFuel:
  assumes "CUR ts s f = NoFuel"
  obtains "tok_id s < length ts" and "f (ts ! tok_id s) = NoFuel"
  using assms by (cases "tok_id s < length ts") auto

lemma call_NoFuel:
  assumes "call m f = NoFuel"
  obtains (first) "m = NoFuel" | (rest) x s1 where "m = Returns (x, s1)" and "f x s1 = NoFuel"
  using assms by (cases m) auto

lemma CHECK_RET_NoFuel:
  assumes "CHECK_RET m f = NoFuel"
  obtains (first) "m = NoFuel" | (rest) x s1 where "m = Returns (Some x, s1)" and "f x s1 = NoFuel"
  using assms by (cases m) (auto simp: CHECK_RET_def split: option.splits)

lemma leaf_halts [simp]:
  "pay_cmd_debt cmd s \<noteq> NoFuel" "SYNTAX_ERROR s \<noteq> NoFuel" "scope_close d rt s \<noteq> NoFuel"
  "get_num ts s \<noteq> NoFuel"
  by (simp_all add: pay_cmd_debt_def SYNTAX_ERROR_def scope_close_def get_num_def CUR_def)

lemmas NoFuel_elims = CUR_NoFuel call_NoFuel CHECK_RET_NoFuel

lemma get_num_tok: "get_num ts s = Returns (x, s') \<Longrightarrow> tok_id s < tok_id s'"
  by (auto simp: get_num_def elim!: CUR_Returns)

lemma parse_enough_fuel:
  "enough ts p s \<le> n \<Longrightarrow> parse n ts p s \<noteq> NoFuel"
proof (induction n arbitrary: p s)
  case 0
  then show ?case by (simp add: enough_def)
next
  case (Suc n)
  have IH: "n \<le> 5 * (length ts - tok_id s') + rank p'" if "parse n ts p' s' = NoFuel" for p' s'
  proof (rule ccontr)
    assume "\<not> n \<le> 5 * (length ts - tok_id s') + rank p'"
    then have "enough ts p' s' \<le> n" by (simp add: enough_def)
    from Suc.IH [OF this] that show False by simp
  qed
  show ?case
  proof
    assume stuck: "parse (Suc n) ts p s = NoFuel"
    show False
    proof (cases p)
      case Get_scope
      with stuck Suc.prems show ?thesis
        by ((auto elim!: NoFuel_elims dest!: IH parse_advances
            simp: enough_def advanced_def Let_def split: if_splits); arith)
    next
      case (Scope_loop d rt c)
      with stuck Suc.prems show ?thesis
        by ((auto elim!: NoFuel_elims dest!: IH parse_advances
            simp: enough_def advanced_def Let_def split: if_splits option.splits); arith)
    next
      case Get_cmd
      with stuck Suc.prems show ?thesis
        by ((auto elim!: NoFuel_elims dest!: IH parse_advances
            simp: enough_def advanced_def Let_def split: if_splits); arith)
    next
      case Get_cond
      with stuck Suc.prems show ?thesis
        by ((auto elim!: NoFuel_elims dest!: IH parse_advances
            simp: enough_def advanced_def Let_def split: if_splits); arith)
    next
      case (Cond_loop kw b rt d)
      with stuck Suc.prems show ?thesis
        by ((auto elim!: NoFuel_elims dest!: IH parse_advances
            simp: enough_def advanced_def Let_def split: if_splits option.splits); arith)
    next
      case Get_ass
      with stuck Suc.prems show ?thesis
        by ((auto elim!: NoFuel_elims dest!: IH parse_advances
            simp: enough_def advanced_def Let_def split: if_splits); arith)
    next
      case Get_add
      with stuck Suc.prems show ?thesis
        by ((auto elim!: NoFuel_elims dest!: IH parse_advances
            simp: enough_def advanced_def Let_def split: if_splits); arith)
    next
      case (Add_loop v)
      with stuck Suc.prems show ?thesis
        by ((auto elim!: NoFuel_elims dest!: IH parse_advances
            simp: enough_def advanced_def Let_def split: if_splits); arith)
    next
      case Get_mul
      with stuck Suc.prems show ?thesis
        by ((auto elim!: NoFuel_elims dest!: IH parse_advances
            simp: enough_def advanced_def Let_def split: if_splits); arith)
    next
      case (Mul_loop v)
      with stuck Suc.prems show ?thesis
        by ((auto elim!: NoFuel_elims dest!: IH parse_advances
            simp: enough_def advanced_def Let_def split: if_splits); arith)
    next
      case Get_par
      with stuck Suc.prems show ?thesis
        by ((auto elim!: NoFuel_elims dest!: IH parse_advances get_num_tok
            simp: enough_def advanced_def Let_def split: if_splits); arith)
    next
      case Get_id
      with stuck Suc.prems show ?thesis
        by ((auto elim!: NoFuel_elims dest!: IH parse_advances
            simp: enough_def advanced_def Let_def split: if_splits); arith)
    next
      case Get_pow
      with stuck Suc.prems show ?thesis
        by ((auto elim!: NoFuel_elims dest!: IH parse_advances
            simp: enough_def advanced_def Let_def split: if_splits); arith)
    next
      case (Pow_loop v)
      with stuck Suc.prems show ?thesis
        by ((auto elim!: NoFuel_elims dest!: IH parse_advances
            simp: enough_def advanced_def Let_def split: if_splits); arith)
    qed
  qed
qed

text \<open>
  So the outcome of a production does not depend on the fuel, once the fuel is enough:
  every run of the parser ends, in a tree, in null or in undefined behaviour.
\<close>

lemma parse_outcome:
  assumes "enough ts p s \<le> n"
  shows "parse n ts p s = parse (enough ts p s) ts p s" and "parse n ts p s \<noteq> NoFuel"
proof -
  from assms obtain k where n: "n = enough ts p s + k"
    using le_Suc_ex by blast
  have "parse (enough ts p s) ts p s \<noteq> NoFuel"
    by (rule parse_enough_fuel) simp
  then show "parse n ts p s = parse (enough ts p s) ts p s"
    using parse_mono_add [where n = "enough ts p s" and k = k and ts = ts and p = p and s = s]
    by (simp add: n fuel_le_def)
  from assms show "parse n ts p s \<noteq> NoFuel"
    by (rule parse_enough_fuel)
qed

text \<open>The rules that run the parser on a given token array.\<close>

lemmas run_simps =
  eval_nat_numeral get_scope_Suc scope_loop_Suc get_cmd_Suc get_cond_Suc cond_loop_Suc get_ass_Suc
  get_add_Suc add_loop_Suc get_mul_Suc mul_loop_Suc get_par_Suc get_id_Suc get_pow_Suc pow_loop_Suc
  get_num_def is_add_sub_def is_mul_div_def is_pow_def is_cond_kwd_def IS_KWD_def
  tNUM_def tOP_def tVAR_def tKWD_def tSYM_def id_incr_def SYNTAX_ERROR_def pay_cmd_debt_def
  scope_close_def pay_scope_debt_def mark_scope_def step_right_def
  CR_NUM_def CR_VAR_def CR_KWD_def CR_OP_def CR_ASS_def CR_SMC_def CR_SCS_def CR_SCE_def

section \<open>Expressions\<close>

subsection \<open>Atoms\<close>

lemma get_par_atom:
  assumes "tok_id s < length ts" and "is_atom (ts ! tok_id s)"
  shows "get_par (Suc (Suc n)) ts s = Returns (Some (atom_node (ts ! tok_id s)), id_incr s)"
  using assms
  by (auto simp: get_par_Suc get_id_Suc get_num_def is_atom_def atom_node_def)

text \<open>Every node \<open>get_id\<close> returns carries a name.\<close>

lemma get_id_carries_name:
  assumes "get_id n ts s = Returns (Some e, s')"
  shows "\<exists>v. nvalue e = VarV v \<and> node_var_value e = v"
proof (cases n)
  case 0
  with assms show ?thesis by simp
next
  case (Suc m)
  with assms show ?thesis
    unfolding Suc get_id_Suc
    by (auto elim!: CUR_Returns CHECK_RET_Some simp: CR_KWD_def CR_VAR_def split: if_splits)
qed

subsection \<open>Chained powers\<close>

lemma pow_loop_chain:
  assumes "\<forall>b\<in>set as. is_atom b" and "\<not> is_pow t"
    and "tok_id s = length pre" and "length as + 3 \<le> n"
  shows "pow_loop n (pre @ pow_tail as @ t # rest) val s =
           Returns (Some (foldl (CR_OP POW) val (map atom_node as)),
                    s\<lparr>tok_id := length pre + 2 * length as\<rparr>)"
  using assms
proof (induction as arbitrary: pre val s n)
  case Nil
  then obtain m where n: "n = Suc m" by (cases n) auto
  from Nil show ?case
    by (simp add: n pow_loop_Suc pow_tail_def nth_append)
next
  case (Cons b as)
  then obtain m where n: "n = Suc (Suc (Suc m))"
    by (metis add_Suc_right le_Suc_eq not0_implies_Suc numeral_3_eq_3 add_leD2 Suc_le_D)
  define ts where "ts = pre @ pow_tail (b # as) @ t # rest"
  have ts: "ts = (pre @ [tOP POW, b]) @ pow_tail as @ t # rest"
    by (simp add: ts_def pow_tail_def)
  have len: "tok_id s < length ts" "tok_id (id_incr s) < length ts"
    using Cons.prems by (simp_all add: ts_def pow_tail_def)
  have t0: "ts ! tok_id s = tOP POW" and t1: "ts ! tok_id (id_incr s) = b"
    using Cons.prems by (simp_all add: ts_def pow_tail_def nth_append)
  have b: "is_atom b" using Cons.prems by simp
  have par: "get_par (Suc (Suc m)) ts (id_incr s) =
               Returns (Some (atom_node b), id_incr (id_incr s))"
    using get_par_atom [OF len(2), of m] t1 b by simp
  have step: "pow_loop n ts val s =
                pow_loop (Suc (Suc m)) ts (CR_OP POW val (atom_node b)) (id_incr (id_incr s))"
    unfolding n by (subst pow_loop_Suc) (simp add: len t0 par)
  have rec: "pow_loop (Suc (Suc m)) ((pre @ [tOP POW, b]) @ pow_tail as @ t # rest)
               (CR_OP POW val (atom_node b)) (id_incr (id_incr s)) =
             Returns (Some (foldl (CR_OP POW) (CR_OP POW val (atom_node b)) (map atom_node as)),
                      (id_incr (id_incr s))
                        \<lparr>tok_id := length (pre @ [tOP POW, b]) + 2 * length as\<rparr>)"
    by (rule Cons.IH) (use Cons.prems n in simp_all)
  show ?case
    unfolding ts_def [symmetric] step unfolding ts rec by (simp add: id_incr_def)
qed

text \<open>
  A chain \<open>a ^ b\<^sub>1 ^ ... ^ b\<^sub>k\<close> of atoms, standing anywhere in the token array and
  followed by a token that is not \<open>^\<close>, is parsed into the left fold of its atoms.
\<close>

lemma get_pow_atom_chain:
  assumes "\<forall>b\<in>set (a # as). is_atom b" and "\<not> is_pow t" and "length as + 4 \<le> n"
  shows "get_pow n (pre @ a # pow_tail as @ t # rest) \<lparr>tok_id = length pre, sce_debt = d\<rparr> =
           Returns (Some (foldl (CR_OP POW) (atom_node a) (map atom_node as)),
                    \<lparr>tok_id = length pre + 1 + 2 * length as, sce_debt = d\<rparr>)"
proof -
  obtain m where n: "n = Suc (Suc (Suc m))" and m: "length as + 1 \<le> m"
    using assms(3) by (cases n; cases "n - 1"; cases "n - 2") auto
  define s where "s = \<lparr>tok_id = length pre, sce_debt = d\<rparr>"
  define ts where "ts = pre @ a # pow_tail as @ t # rest"
  have ts: "ts = (pre @ [a]) @ pow_tail as @ t # rest"
    by (simp add: ts_def)
  have len: "tok_id s < length ts" and t0: "ts ! tok_id s = a"
    by (simp_all add: s_def ts_def)
  have par: "get_par (Suc (Suc m)) ts s = Returns (Some (atom_node a), id_incr s)"
    using get_par_atom [OF len, of m] t0 assms(1) by simp
  have "get_pow n ts s = pow_loop (Suc (Suc m)) ts (atom_node a) (id_incr s)"
    unfolding n by (subst get_pow_Suc) (simp add: par)
  also have "\<dots> = Returns (Some (foldl (CR_OP POW) (atom_node a) (map atom_node as)),
                    (id_incr s)\<lparr>tok_id := length (pre @ [a]) + 2 * length as\<rparr>)"
    unfolding ts by (rule pow_loop_chain) (use assms m in \<open>simp_all add: s_def\<close>)
  finally show ?thesis
    by (simp add: s_def ts_def id_incr_def)
qed


subsection \<open>Chains of operands\<close>

lemma fold_ops_simps [simp]:
  "fold_ops val [] = val"
  "fold_ops val ((op, e, s') # xs) = fold_ops (CR_OP op val e) xs"
  by (simp_all add: fold_ops_def)

lemma end_state_simps [simp]:
  "end_state s [] = s"
  "end_state s ((op, e, s') # xs) = end_state s' xs"
  by (simp_all add: end_state_def)

lemma pow_loop_fold:
  "operands is_pow (get_par n ts) ts s xs \<Longrightarrow>
     pow_loop (n + length xs + 1) ts val s = Returns (Some (fold_ops val xs), end_state s xs)"
proof (induction xs arbitrary: val s)
  case Nil
  then show ?case by (simp add: pow_loop_Suc)
next
  case (Cons x xs)
  obtain op e s' where x: "x = (op, e, s')" by (cases x)
  from Cons.prems have len: "tok_id s < length ts" and cur: "is_pow (ts ! tok_id s)"
    and op: "op = op_value (ts ! tok_id s)"
    and sub: "get_par n ts (id_incr s) = Returns (Some e, s')"
    and rest: "operands is_pow (get_par n ts) ts s' xs"
    by (simp_all add: x)
  have sub': "get_par (n + length xs + 1) ts (id_incr s) = Returns (Some e, s')"
    using production_mono(1) [OF sub, of "length xs + 1"] by (simp add: add.assoc)
  from cur op have opP: "op = POW" by (simp add: is_pow_def)
  have "pow_loop (Suc (n + length xs + 1)) ts val s =
          Returns (Some (fold_ops val ((op, e, s') # xs)), end_state s ((op, e, s') # xs))"
    by (subst pow_loop_Suc) (simp add: len cur sub' Cons.IH [OF rest] opP del: One_nat_def)
  then show ?case
    by (simp add: x)
qed

lemma mul_loop_fold:
  "operands is_mul_div (get_pow n ts) ts s xs \<Longrightarrow>
     mul_loop (n + length xs + 1) ts val s = Returns (Some (fold_ops val xs), end_state s xs)"
proof (induction xs arbitrary: val s)
  case Nil
  then show ?case by (simp add: mul_loop_Suc)
next
  case (Cons x xs)
  obtain op e s' where x: "x = (op, e, s')" by (cases x)
  from Cons.prems have len: "tok_id s < length ts" and cur: "is_mul_div (ts ! tok_id s)"
    and op: "op = op_value (ts ! tok_id s)"
    and sub: "get_pow n ts (id_incr s) = Returns (Some e, s')"
    and rest: "operands is_mul_div (get_pow n ts) ts s' xs"
    by (simp_all add: x)
  have sub': "get_pow (n + length xs + 1) ts (id_incr s) = Returns (Some e, s')"
    using production_mono(2) [OF sub, of "length xs + 1"] by (simp add: add.assoc)
  have "mul_loop (Suc (n + length xs + 1)) ts val s =
          Returns (Some (fold_ops val ((op, e, s') # xs)), end_state s ((op, e, s') # xs))"
    by (subst mul_loop_Suc) (simp add: len cur op sub' Cons.IH [OF rest] del: One_nat_def)
  then show ?case
    by (simp add: x)
qed

lemma add_loop_fold:
  "operands is_add_sub (get_mul n ts) ts s xs \<Longrightarrow>
     add_loop (n + length xs + 1) ts val s = Returns (Some (fold_ops val xs), end_state s xs)"
proof (induction xs arbitrary: val s)
  case Nil
  then show ?case by (simp add: add_loop_Suc)
next
  case (Cons x xs)
  obtain op e s' where x: "x = (op, e, s')" by (cases x)
  from Cons.prems have len: "tok_id s < length ts" and cur: "is_add_sub (ts ! tok_id s)"
    and op: "op = op_value (ts ! tok_id s)"
    and sub: "get_mul n ts (id_incr s) = Returns (Some e, s')"
    and rest: "operands is_add_sub (get_mul n ts) ts s' xs"
    by (simp_all add: x)
  have sub': "get_mul (n + length xs + 1) ts (id_incr s) = Returns (Some e, s')"
    using production_mono(3) [OF sub, of "length xs + 1"] by (simp add: add.assoc)
  have "add_loop (Suc (n + length xs + 1)) ts val s =
          Returns (Some (fold_ops val ((op, e, s') # xs)), end_state s ((op, e, s') # xs))"
    by (subst add_loop_Suc) (simp add: len cur op sub' Cons.IH [OF rest] del: One_nat_def)
  then show ?case
    by (simp add: x)
qed

text \<open>
  C3. A chained power is a first operand that \<open>get_par\<close> parses and then, as long as the
  next token is \<open>^\<close>, that token and a further operand that \<open>get_par\<close> parses. Whatever
  the operands are, \<open>get_pow\<close> (with the fuel of the operands and one unit for each) returns
  their left fold \<open>((e\<^sub>0 ^ e\<^sub>1) ^ ...) ^ e\<^sub>k\<close> and stops behind the last operand. For the
  tokens of \<open>2^3^2\<close> this is the tree of \<open>(2^3)^2\<close>, not that of \<open>2^(3^2)\<close>.
\<close>

theorem get_pow_folds_left:
  assumes "get_par n ts s = Returns (Some e, s0)" and "operands is_pow (get_par n ts) ts s0 xs"
  shows "get_pow (n + length xs + 2) ts s = Returns (Some (fold_ops e xs), end_state s0 xs)"
proof -
  have fuel: "n + length xs + 2 = Suc (n + length xs + 1)" by simp
  have "get_par (n + length xs + 1) ts s = Returns (Some e, s0)"
    using production_mono(1) [OF assms(1), of "length xs + 1"] by (simp add: add.assoc)
  then show ?thesis
    unfolding fuel
    by (subst get_pow_Suc) (simp add: pow_loop_fold [OF assms(2)] del: One_nat_def)
qed

theorem get_pow_folds_left_witness:
  "get_par 2 pow_2_3_2 \<lparr>tok_id = 0, sce_debt = 0\<rparr> =
     Returns (Some (CR_NUM 2 None None), \<lparr>tok_id = 1, sce_debt = 0\<rparr>) \<and>
   operands is_pow (get_par 2 pow_2_3_2) pow_2_3_2 \<lparr>tok_id = 1, sce_debt = 0\<rparr>
     [(POW, CR_NUM 3 None None, \<lparr>tok_id = 3, sce_debt = 0\<rparr>),
      (POW, CR_NUM 2 None None, \<lparr>tok_id = 5, sce_debt = 0\<rparr>)] \<and>
   get_pow 6 pow_2_3_2 \<lparr>tok_id = 0, sce_debt = 0\<rparr> =
     Returns (Some (CR_OP POW (CR_OP POW (CR_NUM 2 None None) (CR_NUM 3 None None))
                              (CR_NUM 2 None None)),
              \<lparr>tok_id = 5, sce_debt = 0\<rparr>) \<and>
   CR_OP POW (CR_OP POW (CR_NUM 2 None None) (CR_NUM 3 None None)) (CR_NUM 2 None None) \<noteq>
   CR_OP POW (CR_NUM 2 None None) (CR_OP POW (CR_NUM 3 None None) (CR_NUM 2 None None))"
proof -
  have a: "get_par 2 pow_2_3_2 \<lparr>tok_id = 0, sce_debt = 0\<rparr> =
     Returns (Some (CR_NUM 2 None None), \<lparr>tok_id = 1, sce_debt = 0\<rparr>)"
    and b: "operands is_pow (get_par 2 pow_2_3_2) pow_2_3_2 \<lparr>tok_id = 1, sce_debt = 0\<rparr>
     [(POW, CR_NUM 3 None None, \<lparr>tok_id = 3, sce_debt = 0\<rparr>),
      (POW, CR_NUM 2 None None, \<lparr>tok_id = 5, sce_debt = 0\<rparr>)]"
    by (simp_all add: pow_2_3_2_def run_simps)
  from get_pow_folds_left [OF a b] have "get_pow 6 pow_2_3_2 \<lparr>tok_id = 0, sce_debt = 0\<rparr> =
     Returns (Some (CR_OP POW (CR_OP POW (CR_NUM 2 None None) (CR_NUM 3 None None))
                              (CR_NUM 2 None None)),
              \<lparr>tok_id = 5, sce_debt = 0\<rparr>)"
    by simp
  with a b show ?thesis
    by (simp add: CR_OP_def CR_NUM_def)
qed

lemma get_mul_fold:
  assumes "get_pow n ts s = Returns (Some e, s0)" and "operands is_mul_div (get_pow n ts) ts s0 xs"
  shows "get_mul (n + length xs + 2) ts s = Returns (Some (fold_ops e xs), end_state s0 xs)"
proof -
  have fuel: "n + length xs + 2 = Suc (n + length xs + 1)" by simp
  have "get_pow (n + length xs + 1) ts s = Returns (Some e, s0)"
    using production_mono(2) [OF assms(1), of "length xs + 1"] by (simp add: add.assoc)
  then show ?thesis
    unfolding fuel
    by (subst get_mul_Suc) (simp add: mul_loop_fold [OF assms(2)] del: One_nat_def)
qed

lemma get_add_fold:
  assumes "get_mul n ts s = Returns (Some e, s0)" and "operands is_add_sub (get_mul n ts) ts s0 xs"
  shows "get_add (n + length xs + 2) ts s = Returns (Some (fold_ops e xs), end_state s0 xs)"
proof -
  have fuel: "n + length xs + 2 = Suc (n + length xs + 1)" by simp
  have "get_mul (n + length xs + 1) ts s = Returns (Some e, s0)"
    using production_mono(3) [OF assms(1), of "length xs + 1"] by (simp add: add.assoc)
  then show ?thesis
    unfolding fuel
    by (subst get_add_Suc) (simp add: add_loop_fold [OF assms(2)] del: One_nat_def)
qed


subsection \<open>Precedence\<close>

lemma pow_mul: "pow_level e \<Longrightarrow> mul_level e"
  by (cases e rule: pow_level.cases) auto

lemma mul_add: "mul_level e \<Longrightarrow> add_level e"
  by (cases e rule: mul_level.cases) auto

lemma atomic_pow: "atomic e \<Longrightarrow> pow_level e"
  by (cases e rule: pow_level.cases) (auto simp: atomic_def)

lemma atomic_leaves [simp]:
  "atomic (CR_NUM x None None)" "atomic (CR_VAR y None None)" "atomic (CR_KWD y None None)"
  by (simp_all add: atomic_def CR_NUM_def CR_VAR_def CR_KWD_def)

lemma level_CR_OP [simp]:
  "pow_level (CR_OP op l r) = (op = POW \<and> pow_level l \<and> atomic r)"
  "mul_level (CR_OP op l r) =
     ((op = MUL \<or> op = DIV) \<and> mul_level l \<and> pow_level r \<or> op = POW \<and> pow_level l \<and> atomic r)"
  "add_level (CR_OP op l r) =
     ((op = ADD \<or> op = SUB) \<and> add_level l \<and> mul_level r
      \<or> (op = MUL \<or> op = DIV) \<and> mul_level l \<and> pow_level r
      \<or> op = POW \<and> pow_level l \<and> atomic r)"
  by (simp_all add: CR_OP_def)

lemma get_id_atomic:
  assumes "no_paren ts" and "get_id n ts s = Returns (Some e, s')"
  shows "atomic e"
proof (cases n)
  case 0 with assms show ?thesis by simp
next
  case (Suc m)
  have "tok_id (id_incr s) < length ts \<Longrightarrow> ttype (ts ! tok_id (id_incr s)) \<noteq> OBR"
    using assms(1) by (auto simp: no_paren_def simp del: id_incr_simps)
  with assms(2) show ?thesis
    unfolding Suc get_id_Suc
    by (auto elim!: CUR_Returns split: if_splits)
qed

lemma get_par_atomic:
  assumes "no_paren ts" and "get_par n ts s = Returns (Some e, s')"
  shows "atomic e"
proof (cases n)
  case 0 with assms show ?thesis by simp
next
  case (Suc m)
  have "tok_id s < length ts \<Longrightarrow> ttype (ts ! tok_id s) \<noteq> OBR"
    using assms(1) by (auto simp: no_paren_def)
  with assms show ?thesis
    unfolding Suc get_par_Suc
    by (auto elim!: CUR_Returns CHECK_RET_Some dest: get_id_atomic
        simp: get_num_def split: if_splits)
qed

lemma loop_step:
  assumes "CUR ts s (\<lambda>t. if c t then CHECK_RET (m t) (f t) else Returns (Some val, s)) =
             Returns (Some e, s')"
  obtains (exit) "e = val" "s' = s"
  | (iter) x s1 where "tok_id s < length ts" "c (ts ! tok_id s)"
      "m (ts ! tok_id s) = Returns (Some x, s1)" "f (ts ! tok_id s) x s1 = Returns (Some e, s')"
  using assms by (auto elim!: CUR_Returns CHECK_RET_Some split: if_splits)

lemma pow_loop_level:
  assumes "no_paren ts"
  shows "pow_level val \<Longrightarrow> pow_loop n ts val s = Returns (Some e, s') \<Longrightarrow> pow_level e"
proof (induction n arbitrary: val s)
  case 0 then show ?case by simp
next
  case (Suc n)
  from Suc.prems(2) [unfolded pow_loop_Suc] show ?case
  proof (cases rule: loop_step)
    case exit with Suc.prems(1) show ?thesis by simp
  next
    case (iter x s1)
    have "pow_level (CR_OP POW val x)"
      using Suc.prems(1) get_par_atomic [OF assms iter(3)] by simp
    then show ?thesis using iter(4) by (rule Suc.IH)
  qed
qed

lemma get_pow_level:
  assumes "no_paren ts" and "get_pow n ts s = Returns (Some e, s')"
  shows "pow_level e"
proof (cases n)
  case 0 with assms show ?thesis by simp
next
  case (Suc m)
  from assms(2) [unfolded Suc get_pow_Suc] obtain x s1
    where x: "get_par m ts s = Returns (Some x, s1)"
      and l: "pow_loop m ts x s1 = Returns (Some e, s')"
    by (rule CHECK_RET_Some)
  from get_par_atomic [OF assms(1) x] have "pow_level x" by (rule atomic_pow)
  then show ?thesis using l by (rule pow_loop_level [OF assms(1)])
qed

lemma mul_loop_level:
  assumes "no_paren ts"
  shows "mul_level val \<Longrightarrow> mul_loop n ts val s = Returns (Some e, s') \<Longrightarrow> mul_level e"
proof (induction n arbitrary: val s)
  case 0 then show ?case by simp
next
  case (Suc n)
  from Suc.prems(2) [unfolded mul_loop_Suc] show ?case
  proof (cases rule: loop_step)
    case exit with Suc.prems(1) show ?thesis by simp
  next
    case (iter x s1)
    have "mul_level (CR_OP (op_value (ts ! tok_id s)) val x)"
      using Suc.prems(1) get_pow_level [OF assms iter(3)] iter(2) by (auto simp: is_mul_div_def)
    then show ?thesis using iter(4) by (rule Suc.IH)
  qed
qed

lemma get_mul_level:
  assumes "no_paren ts" and "get_mul n ts s = Returns (Some e, s')"
  shows "mul_level e"
proof (cases n)
  case 0 with assms show ?thesis by simp
next
  case (Suc m)
  from assms(2) [unfolded Suc get_mul_Suc] obtain x s1
    where x: "get_pow m ts s = Returns (Some x, s1)"
      and l: "mul_loop m ts x s1 = Returns (Some e, s')"
    by (rule CHECK_RET_Some)
  from get_pow_level [OF assms(1) x] have "mul_level x" by (rule pow_mul)
  then show ?thesis using l by (rule mul_loop_level [OF assms(1)])
qed

lemma add_loop_level:
  assumes "no_paren ts"
  shows "add_level val \<Longrightarrow> add_loop n ts val s = Returns (Some e, s') \<Longrightarrow> add_level e"
proof (induction n arbitrary: val s)
  case 0 then show ?case by simp
next
  case (Suc n)
  from Suc.prems(2) [unfolded add_loop_Suc] show ?case
  proof (cases rule: loop_step)
    case exit with Suc.prems(1) show ?thesis by simp
  next
    case (iter x s1)
    have "add_level (CR_OP (op_value (ts ! tok_id s)) val x)"
      using Suc.prems(1) get_mul_level [OF assms iter(3)] iter(2) by (auto simp: is_add_sub_def)
    then show ?thesis using iter(4) by (rule Suc.IH)
  qed
qed

lemma get_add_level:
  assumes "no_paren ts" and "get_add n ts s = Returns (Some e, s')"
  shows "add_level e"
proof (cases n)
  case 0 with assms show ?thesis by simp
next
  case (Suc m)
  from assms(2) [unfolded Suc get_add_Suc] obtain x s1
    where x: "get_mul m ts s = Returns (Some x, s1)"
      and l: "add_loop m ts x s1 = Returns (Some e, s')"
    by (rule CHECK_RET_Some)
  from get_mul_level [OF assms(1) x] have "add_level x" by (rule mul_add)
  then show ?thesis using l by (rule add_loop_level [OF assms(1)])
qed

lemma get_add_2_3_4:
  assumes "ttype t \<noteq> OP"
  shows "get_add (8 + n) (expr_2_3_4 @ t # rest) \<lparr>tok_id = 0, sce_debt = d\<rparr> =
           Returns (Some tree_2_plus_3x4, \<lparr>tok_id = 5, sce_debt = d\<rparr>)"
  using assms
  by (simp add: eval_nat_numeral expr_2_3_4_def tree_2_plus_3x4_def get_add_Suc get_mul_Suc
      get_pow_Suc get_par_Suc add_loop_Suc mul_loop_Suc pow_loop_Suc get_num_def
      is_add_sub_def is_mul_div_def is_pow_def tNUM_def tOP_def id_incr_def)

text \<open>
  C2. The tokens of \<open>2+3*4\<close>, followed by any token that is not an operator, are parsed by
  \<open>get_add\<close> (with any fuel from 8 on) into the tree whose root is \<open>+\<close> and whose right
  child is \<open>*\<close>; that tree evaluates to 14, the other grouping to 20. For every
  expression: when the token array reads as a term that \<open>get_mul\<close> parses and then, as
  long as the next token is \<open>+\<close> or \<open>-\<close>, that token and a further term that \<open>get_mul\<close>
  parses, \<open>get_add\<close> returns the left fold of these terms under their operators; and a
  term is, in the same way, the left fold under \<open>*\<close> and \<open>/\<close> of the factors that
  \<open>get_pow\<close> parses, so a product is complete before it becomes the operand of a sum.
  And for every token array without parentheses, whatever tree \<open>get_add\<close> returns is at
  the additive level: the operands of a multiplicative operator hold no additive operator.
\<close>

theorem get_add_precedence:
  "(ttype t \<noteq> OP \<longrightarrow>
      get_add (8 + n) (expr_2_3_4 @ t # rest) \<lparr>tok_id = 0, sce_debt = d\<rparr> =
        Returns (Some tree_2_plus_3x4, \<lparr>tok_id = 5, sce_debt = d\<rparr>)) \<and>
   nvalue tree_2_plus_3x4 = OpV ADD \<and>
   map_option nvalue (right tree_2_plus_3x4) = Some (OpV MUL) \<and>
   eval tree_2_plus_3x4 = Some 14 \<and>
   eval tree_2plus3_x_4 = Some 20 \<and>
   (get_mul k ts s = Returns (Some e0, s0) \<and> operands is_add_sub (get_mul k ts) ts s0 xs \<longrightarrow>
      get_add (k + length xs + 2) ts s = Returns (Some (fold_ops e0 xs), end_state s0 xs)) \<and>
   (get_pow k' ts' s1 = Returns (Some e1, s2) \<and> operands is_mul_div (get_pow k' ts') ts' s2 ys \<longrightarrow>
      get_mul (k' + length ys + 2) ts' s1 = Returns (Some (fold_ops e1 ys), end_state s2 ys)) \<and>
   (no_paren ts'' \<and> get_add m ts'' s3 = Returns (Some e, s') \<longrightarrow> add_level e)"
proof (intro conjI impI)
  assume "ttype t \<noteq> OP"
  then show "get_add (8 + n) (expr_2_3_4 @ t # rest) \<lparr>tok_id = 0, sce_debt = d\<rparr> =
               Returns (Some tree_2_plus_3x4, \<lparr>tok_id = 5, sce_debt = d\<rparr>)"
    by (rule get_add_2_3_4)
next
  assume "get_mul k ts s = Returns (Some e0, s0) \<and> operands is_add_sub (get_mul k ts) ts s0 xs"
  then show "get_add (k + length xs + 2) ts s = Returns (Some (fold_ops e0 xs), end_state s0 xs)"
    using get_add_fold by blast
next
  assume "get_pow k' ts' s1 = Returns (Some e1, s2) \<and>
          operands is_mul_div (get_pow k' ts') ts' s2 ys"
  then show "get_mul (k' + length ys + 2) ts' s1 = Returns (Some (fold_ops e1 ys), end_state s2 ys)"
    using get_mul_fold by blast
next
  assume "no_paren ts'' \<and> get_add m ts'' s3 = Returns (Some e, s')"
  then show "add_level e"
    using get_add_level by blast
qed (simp_all add: tree_2_plus_3x4_def tree_2plus3_x_4_def CR_OP_def CR_NUM_def)

theorem get_add_precedence_witness:
  "ttype (tSYM SMC) \<noteq> OP \<and>
   get_mul 4 stmt_2_3_4 \<lparr>tok_id = 0, sce_debt = 0\<rparr> =
     Returns (Some (CR_NUM 2 None None), \<lparr>tok_id = 1, sce_debt = 0\<rparr>) \<and>
   operands is_add_sub (get_mul 4 stmt_2_3_4) stmt_2_3_4 \<lparr>tok_id = 1, sce_debt = 0\<rparr>
     [(ADD, CR_OP MUL (CR_NUM 3 None None) (CR_NUM 4 None None), \<lparr>tok_id = 5, sce_debt = 0\<rparr>)] \<and>
   get_pow 3 stmt_2_3_4 \<lparr>tok_id = 2, sce_debt = 0\<rparr> =
     Returns (Some (CR_NUM 3 None None), \<lparr>tok_id = 3, sce_debt = 0\<rparr>) \<and>
   operands is_mul_div (get_pow 3 stmt_2_3_4) stmt_2_3_4 \<lparr>tok_id = 3, sce_debt = 0\<rparr>
     [(MUL, CR_NUM 4 None None, \<lparr>tok_id = 5, sce_debt = 0\<rparr>)] \<and>
   no_paren stmt_2_3_4 \<and>
   get_add 7 stmt_2_3_4 \<lparr>tok_id = 0, sce_debt = 0\<rparr> =
     Returns (Some tree_2_plus_3x4, \<lparr>tok_id = 5, sce_debt = 0\<rparr>) \<and>
   get_add 8 stmt_2_3_4 \<lparr>tok_id = 0, sce_debt = 0\<rparr> =
     Returns (Some tree_2_plus_3x4, \<lparr>tok_id = 5, sce_debt = 0\<rparr>) \<and>
   get_mul 6 stmt_2_3_4 \<lparr>tok_id = 2, sce_debt = 0\<rparr> =
     Returns (Some (CR_OP MUL (CR_NUM 3 None None) (CR_NUM 4 None None)),
              \<lparr>tok_id = 5, sce_debt = 0\<rparr>) \<and>
   add_level tree_2_plus_3x4 \<and>
   eval tree_2_plus_3x4 = Some 14"
proof -
  let ?s = "\<lambda>i. \<lparr>tok_id = i, sce_debt = 0::nat\<rparr>"
  have t: "ttype (tSYM SMC) \<noteq> OP"
    by (simp add: tSYM_def)
  have p: "no_paren stmt_2_3_4"
    by (simp add: no_paren_def stmt_2_3_4_def tSYM_def tNUM_def tOP_def)
  have a: "get_mul 4 stmt_2_3_4 (?s 0) = Returns (Some (CR_NUM 2 None None), ?s 1)"
    and b: "operands is_add_sub (get_mul 4 stmt_2_3_4) stmt_2_3_4 (?s 1)
              [(ADD, CR_OP MUL (CR_NUM 3 None None) (CR_NUM 4 None None), ?s 5)]"
    and c: "get_pow 3 stmt_2_3_4 (?s 2) = Returns (Some (CR_NUM 3 None None), ?s 3)"
    and d: "operands is_mul_div (get_pow 3 stmt_2_3_4) stmt_2_3_4 (?s 3)
              [(MUL, CR_NUM 4 None None, ?s 5)]"
    by (simp_all add: stmt_2_3_4_def run_simps)
  have st: "stmt_2_3_4 = expr_2_3_4 @ tSYM SMC # []"
    by (simp add: stmt_2_3_4_def expr_2_3_4_def)
  note inst = get_add_precedence [where t = "tSYM SMC" and n = 0 and rest = "[]" and d = 0
      and k = 4 and ts = stmt_2_3_4 and s = "?s 0" and ?e0.0 = "CR_NUM 2 None None"
      and ?s0.0 = "?s 1"
      and xs = "[(ADD, CR_OP MUL (CR_NUM 3 None None) (CR_NUM 4 None None), ?s 5)]"
      and k' = 3 and ts' = stmt_2_3_4 and ?s1.0 = "?s 2" and ?e1.0 = "CR_NUM 3 None None"
      and ?s2.0 = "?s 3" and ys = "[(MUL, CR_NUM 4 None None, ?s 5)]"
      and ts'' = stmt_2_3_4 and m = 8 and ?s3.0 = "?s 0" and e = tree_2_plus_3x4
      and s' = "?s 5", folded st]
  from inst t have g8: "get_add 8 stmt_2_3_4 (?s 0) = Returns (Some tree_2_plus_3x4, ?s 5)"
    by simp
  from inst a b have g7: "get_add 7 stmt_2_3_4 (?s 0) = Returns (Some tree_2_plus_3x4, ?s 5)"
    by (simp add: tree_2_plus_3x4_def fold_ops_def end_state_def)
  from inst c d have m6: "get_mul 6 stmt_2_3_4 (?s 2) =
      Returns (Some (CR_OP MUL (CR_NUM 3 None None) (CR_NUM 4 None None)), ?s 5)"
    by (simp add: fold_ops_def end_state_def)
  from inst p g8 have "add_level tree_2_plus_3x4" and "eval tree_2_plus_3x4 = Some 14"
    by blast+
  with t p a b c d g7 g8 m6 show ?thesis
    by blast
qed

section \<open>Statements and scopes\<close>

subsection \<open>A syntax error that is not reported\<close>

text \<open>
  C4. The claim fails on the code. In \<open>{ if (x) { y = 1 } }\<close> the assignment lacks its
  semicolon, \<open>get_cmd\<close> returns null for it, and \<open>get_cond\<close> takes that null as the
  body's first command without \<open>CHECK_RET\<close>: the next token is the close brace, so the
  loop is skipped and an \<open>if\<close> node without a body is returned. In \<open>{ x = 1; y = 2 }\<close>
  the loop of \<open>get_scope\<close> stores the null of the second statement into the chain and
  ends on the close brace. In both runs \<open>get_scope\<close> hands a tree, not null, to its caller.
\<close>

theorem missing_semicolon_returns_tree:
  "get_scope (12 + n) if_no_semicolon \<lparr>tok_id = 0, sce_debt = 0\<rparr> =
     Returns (Some (Node SCS NoV
                (Some (CR_KWD ''if'' (Some (CR_VAR ''x'' None None)) None)) None),
              \<lparr>tok_id = 11, sce_debt = 1\<rparr>) \<and>
   get_scope (12 + n) second_no_semicolon \<lparr>tok_id = 0, sce_debt = 0\<rparr> =
     Returns (Some (Node SCS NoV
                (Some (CR_ASS (CR_VAR ''x'' None None) (CR_NUM 1 None None))) None),
              \<lparr>tok_id = 9, sce_debt = 1\<rparr>)"
  by (simp add: if_no_semicolon_def second_no_semicolon_def run_simps)

subsection \<open>Statements leave no debt\<close>

text \<open>
  The counter \<open>sce_debt\<close> is written by \<open>get_scope\<close> and by \<open>get_cmd\<close> only, and
  the nodes \<open>SCE\<close> are made by these two when they find a debt. So a statement that is
  parsed without debt leaves none and its tree has no node \<open>SCE\<close>.
\<close>

lemma no_SCE_simps [simp]:
  "no_SCE None"
  "no_SCE (Some (CR_NUM v l r)) = (no_SCE l \<and> no_SCE r)"
  "no_SCE (Some (CR_VAR n l r)) = (no_SCE l \<and> no_SCE r)"
  "no_SCE (Some (CR_KWD n l r)) = (no_SCE l \<and> no_SCE r)"
  "no_SCE (Some (CR_SMC l r)) = (no_SCE l \<and> no_SCE r)"
  "no_SCE (Some (CR_OP op a b)) = (no_SCE (Some a) \<and> no_SCE (Some b))"
  "no_SCE (Some (CR_ASS a b)) = (no_SCE (Some a) \<and> no_SCE (Some b))"
  by (auto simp: no_SCE_def CR_NUM_def CR_VAR_def CR_KWD_def CR_SMC_def CR_OP_def CR_ASS_def
      split: option.splits)

lemma no_SCE_right_assign_at:
  "no_SCE (Some r) \<Longrightarrow> no_SCE x \<Longrightarrow> no_SCE (Some (right_assign_at r d x))"
  by (induction r d x rule: right_assign_at.induct) (auto simp: no_SCE_def split: option.splits)

lemma pay_no_cmd_debt:
  "pay_cmd_debt cmd s = Returns (x, s') \<Longrightarrow> sce_debt s = 0 \<Longrightarrow>
     x = Some (CR_SMC (Some cmd) None) \<and> s' = s"
  by (auto simp: pay_cmd_debt_def)

lemma parse_keeps_no_debt:
  "parse n ts p s = Returns (x, s') \<Longrightarrow> keeps_no_debt p s x s'"
proof (induction n arbitrary: p s x s')
  case 0
  then show ?case by simp
next
  case (Suc n)
  note IH = Suc.IH
  show ?case
  proof (cases p)
    case Get_scope
    then show ?thesis by (simp add: keeps_no_debt_def)
  next
    case (Scope_loop d rt c)
    then show ?thesis by (simp add: keeps_no_debt_def)
  next
    case Get_cmd
    with Suc.prems show ?thesis
      by (auto simp: keeps_no_debt_def Let_def id_incr_def SYNTAX_ERROR_def
          elim!: CUR_Returns CHECK_RET_Returns call_Returns
          dest!: IH pay_no_cmd_debt split: if_splits)
  next
    case Get_cond
    with Suc.prems show ?thesis
      by (auto simp: keeps_no_debt_def Let_def id_incr_def SYNTAX_ERROR_def
          elim!: CUR_Returns CHECK_RET_Returns call_Returns
          dest!: IH split: if_splits)
  next
    case (Cond_loop kw b rt d)
    with Suc.prems show ?thesis
      by (auto simp: keeps_no_debt_def Let_def id_incr_def no_SCE_right_assign_at
          elim!: CUR_Returns CHECK_RET_Returns call_Returns
          dest!: IH split: if_splits option.splits)
  next
    case Get_ass
    with Suc.prems show ?thesis
      by (auto simp: keeps_no_debt_def Let_def id_incr_def SYNTAX_ERROR_def
          elim!: CUR_Returns CHECK_RET_Returns call_Returns
          dest!: IH split: if_splits)
  next
    case Get_add
    with Suc.prems show ?thesis
      by (auto simp: keeps_no_debt_def elim!: CHECK_RET_Returns dest!: IH)
  next
    case (Add_loop v)
    with Suc.prems show ?thesis
      by (auto simp: keeps_no_debt_def id_incr_def elim!: CUR_Returns CHECK_RET_Returns dest!: IH
          split: if_splits)
  next
    case Get_mul
    with Suc.prems show ?thesis
      by (auto simp: keeps_no_debt_def elim!: CHECK_RET_Returns dest!: IH)
  next
    case (Mul_loop v)
    with Suc.prems show ?thesis
      by (auto simp: keeps_no_debt_def id_incr_def elim!: CUR_Returns CHECK_RET_Returns dest!: IH
          split: if_splits)
  next
    case Get_par
    with Suc.prems show ?thesis
      by (auto simp: keeps_no_debt_def id_incr_def SYNTAX_ERROR_def get_num_def
          elim!: CUR_Returns CHECK_RET_Returns dest!: IH split: if_splits)
  next
    case Get_id
    with Suc.prems show ?thesis
      by (auto simp: keeps_no_debt_def Let_def id_incr_def SYNTAX_ERROR_def
          elim!: CUR_Returns CHECK_RET_Returns dest!: IH split: if_splits)
  next
    case Get_pow
    with Suc.prems show ?thesis
      by (auto simp: keeps_no_debt_def elim!: CHECK_RET_Returns dest!: IH)
  next
    case (Pow_loop v)
    with Suc.prems show ?thesis
      by (auto simp: keeps_no_debt_def id_incr_def elim!: CUR_Returns CHECK_RET_Returns dest!: IH
          split: if_splits)
  qed
qed

subsection \<open>The loop of a scope\<close>

text \<open>
  The run of \<open>get_scope\<close> on a scope, from the runs of \<open>get_scope\<close> on the items
  of the scope: the items go into one chain, and the scope is closed behind the last.
\<close>

lemma node_at_attach:
  "node_at rt c \<noteq> None \<Longrightarrow> node_at (scope_end_assign rt (Some x)) (Suc c) \<noteq> None"
proof (induction rt "Some x" arbitrary: c rule: scope_end_assign.induct)
  case (1 t v l)
  then show ?case by (cases c) simp_all
next
  case (2 t v l r)
  then show ?case by (cases c) simp_all
qed

lemma step_right_attach:
  "node_at rt c \<noteq> None \<Longrightarrow> step_right (scope_end_assign rt (Some x)) c = Some (Suc c)"
  using node_at_attach [of rt c x] by (auto simp: step_right_def)

lemma node_at_step: "step_right rt c = Some c' \<Longrightarrow> node_at rt c' \<noteq> None"
  by (auto simp: step_right_def split: option.splits)

lemma count_type_scope_end_assign:
  "count_type ty (scope_end_assign rt x) =
     count_type ty rt + (case x of None \<Rightarrow> 0 | Some n \<Rightarrow> count_type ty n)"
  by (induction rt x rule: scope_end_assign.induct) (simp_all split: option.splits)

lemma count_type_pay_scope_debt:
  "count_type SCE (pay_scope_debt d rt) = d + count_type SCE rt"
  by (induction d) (simp_all add: pay_scope_debt_def CR_SCE_def)

lemma ntype_scope_end_assign [simp]: "ntype (scope_end_assign rt x) = ntype rt"
  by (cases "(rt, x)" rule: scope_end_assign.cases) simp_all

lemma ntype_mark_scope [simp]: "ntype (mark_scope rt) = SCS"
  by (cases rt) (simp add: mark_scope_def CR_SCS_def)

lemma behind_simps [simp]: "behind s [] = s" "behind s ((u, s') # xs) = behind s' xs"
  by (simp_all add: behind_def)

lemma chain_simps [simp]:
  "chain rt [] = rt" "chain rt (u # us) = chain (scope_end_assign rt (Some u)) us"
  by (simp_all add: chain_def)

lemma scope_loop_items:
  "scope_items n ts s xs \<Longrightarrow> node_at rt c \<noteq> None \<Longrightarrow>
     scope_loop (n + length xs + 1) ts d rt (Some c) s =
       scope_close d (chain rt (map fst xs)) (behind s xs)"
proof (induction xs arbitrary: rt c s)
  case Nil
  then show ?case by (simp add: scope_loop_Suc)
next
  case (Cons x xs)
  obtain u s' where x: "x = (u, s')" by (cases x)
  from Cons.prems(1) have len: "tok_id s < length ts" and t: "ttype (ts ! tok_id s) \<noteq> CCBR"
    and item: "get_scope n ts s = Returns (Some u, s')" and rest: "scope_items n ts s' xs"
    by (simp_all add: x)
  define m where "m = n + length xs + 1"
  have item': "get_scope m ts s = Returns (Some u, s')"
    unfolding m_def using production_mono(5) [OF item, of "length xs + 1"] by (simp add: add.assoc)
  have next_node: "node_at (scope_end_assign rt (Some u)) (Suc c) \<noteq> None"
    using Cons.prems(2) by (rule node_at_attach)
  have "scope_loop (Suc m) ts d rt (Some c) s =
          scope_loop m ts d (scope_end_assign rt (Some u)) (Some (Suc c)) s'"
    using len t
    by (subst scope_loop_Suc) (simp add: item' step_right_attach [OF Cons.prems(2)])
  also have "\<dots> = scope_close d (chain (scope_end_assign rt (Some u)) (map fst xs)) (behind s' xs)"
    unfolding m_def using rest next_node by (rule Cons.IH)
  finally have "scope_loop (Suc m) ts d rt (Some c) s =
      scope_close d (chain (scope_end_assign rt (Some u)) (map fst xs)) (behind s' xs)" .
  moreover have "n + length (x # xs) + 1 = Suc m" by (simp add: m_def)
  ultimately show ?case by (simp add: x)
qed

lemma get_scope_items:
  assumes "tok_id s < length ts" and "ttype (ts ! tok_id s) = OCBR"
    and "get_scope n ts (id_incr (s\<lparr>sce_debt := 0\<rparr>)) = Returns (Some u, s1)"
    and "scope_items n ts s1 xs"
  shows "get_scope (n + length xs + 2) ts s =
           scope_close (sce_debt s) (chain u (map fst xs)) (behind s1 xs)"
proof -
  define m where "m = n + length xs + 1"
  have fuel: "n + length xs + 2 = Suc m" by (simp add: m_def)
  have first: "get_scope m ts (id_incr (s\<lparr>sce_debt := 0\<rparr>)) = Returns (Some u, s1)"
    unfolding m_def using production_mono(5) [OF assms(3), of "length xs + 1"]
    by (simp add: add.assoc)
  have "node_at u 0 \<noteq> None" by simp
  with assms(4) have "scope_loop m ts (sce_debt s) u (Some 0) s1 =
      scope_close (sce_debt s) (chain u (map fst xs)) (behind s1 xs)"
    unfolding m_def by (rule scope_loop_items)
  with assms(1,2) first show ?thesis
    unfolding fuel by (subst get_scope_Suc) simp
qed

subsection \<open>Consecutive nested sub-scopes\<close>

text \<open>
  C1, as the claim states it, fails on the code. The scope \<open>{ { a = 1; } }\<close> holds one
  nested sub-scope that closes with no trailing statement: the tree \<open>get_scope\<close> returns
  for it has no \<open>SCE\<close> node, not one, and the debt counter is 2 when the scope has finished,
  not zero.
\<close>

theorem one_nested_scope_no_SCE:
  "get_scope 13 (nested_scopes [(''a'', 1)]) \<lparr>tok_id = 0, sce_debt = 0\<rparr> =
     Returns (Some (CR_SCS None (Some (sub_scope_node (''a'', 1)))),
              \<lparr>tok_id = 8, sce_debt = 2\<rparr>) \<and>
   count_type SCE (CR_SCS None (Some (sub_scope_node (''a'', 1)))) = 0 \<and>
   count_type SCE (CR_SCS None (Some (sub_scope_node (''a'', 1)))) \<noteq> length [(''a'', 1::real)] \<and>
   sce_debt \<lparr>tok_id = 8, sce_debt = 2\<rparr> \<noteq> 0"
  by (simp add: nested_scopes_def sub_scope_def sub_scope_node_def assign_node_def run_simps)

text \<open>
  The same with one more scope around it, \<open>{ { { a = 1; } } }\<close>: a sub-scope that holds a
  scope leaves a debt of two, and the counter is 3 when the enclosing scope has
  finished. So the count below is one of sub-scopes that hold statements only.
\<close>

lemma scope_in_sub_scope:
  "get_scope 14 (tSYM OCBR # nested_scopes [(''a'', 1)] @ [tSYM CCBR]) \<lparr>tok_id = 0, sce_debt = 0\<rparr> =
     Returns (Some (CR_SCS None (Some (CR_SCS None (Some (sub_scope_node (''a'', 1)))))),
              \<lparr>tok_id = 10, sce_debt = 3\<rparr>)"
  by (simp add: nested_scopes_def sub_scope_def sub_scope_node_def assign_node_def run_simps)

lemma stmts_items: "stmts n ts s cs \<Longrightarrow> scope_items (Suc n) ts s cs"
proof (induction cs arbitrary: s)
  case Nil
  then show ?case by simp
next
  case (Cons x cs)
  obtain c s' where x: "x = (c, s')" by (cases x)
  with Cons show ?case
    by (simp add: get_scope_Suc)
qed

lemma stmts_no_debt:
  "stmts n ts s cs \<Longrightarrow> sce_debt s = 0 \<Longrightarrow>
     sce_debt (behind s cs) = 0 \<and> (\<forall>c\<in>set (map fst cs). count_type SCE c = 0)"
proof (induction cs arbitrary: s)
  case Nil
  then show ?case by simp
next
  case (Cons x cs)
  obtain c s' where x: "x = (c, s')" by (cases x)
  from Cons.prems have "parse n ts Get_cmd s = Returns (Some c, s')" and rest: "stmts n ts s' cs"
    by (simp_all add: x get_cmd_def)
  from parse_keeps_no_debt [OF this(1)] Cons.prems(2)
  have "sce_debt s' = 0" "count_type SCE c = 0"
    by (simp_all add: keeps_no_debt_def no_SCE_def)
  with Cons.IH [OF rest] show ?case
    by (simp add: x)
qed

lemma count_type_chain:
  "count_type ty (chain rt us) = count_type ty rt + sum_list (map (count_type ty) us)"
  by (induction us arbitrary: rt) (simp_all add: count_type_scope_end_assign)

lemma ntype_chain [simp]: "ntype (chain rt us) = ntype rt"
  by (induction us arbitrary: rt) simp_all

lemma count_type_mark_scope:
  "count_type SCE rt = 0 \<Longrightarrow> count_type SCE (mark_scope rt) = 0"
  by (cases rt) (auto simp: mark_scope_def CR_SCS_def split: if_splits)

lemma scope_close_state:
  "scope_close d rt s = Returns (Some (pay_scope_debt d (mark_scope rt)), after_close s)"
  by (simp add: scope_close_def after_close_def)

lemma flat_scope_run:
  assumes "flat_scope n ts s cs"
  shows "get_scope (n + length cs + 2) ts s =
           Returns (Some (pay_scope_debt (sce_debt s) (flat_scope_tree cs)), after_close (behind s cs))"
    and "sce_debt (after_close (behind s cs)) = 1"
    and "count_type SCE (flat_scope_tree cs) = 0"
proof -
  from assms obtain c s' cs' where cs: "cs = (c, s') # cs'"
    by (cases cs) auto
  let ?s0 = "id_incr (s\<lparr>sce_debt := 0\<rparr>)"
  from assms have len: "tok_id s < length ts" and t: "ttype (ts ! tok_id s) = OCBR"
    and len0: "tok_id ?s0 < length ts" and t0: "ttype (ts ! tok_id ?s0) \<noteq> OCBR"
    and cmd: "get_cmd n ts ?s0 = Returns (Some c, s')" and rest: "stmts n ts s' cs'"
    by (simp_all add: cs id_incr_def)
  have first: "get_scope (Suc n) ts ?s0 = Returns (Some c, s')"
    using len0 t0 cmd by (simp add: get_scope_Suc)
  from rest have items: "scope_items (Suc n) ts s' cs'"
    by (rule stmts_items)
  have "get_scope (Suc n + length cs' + 2) ts s =
          scope_close (sce_debt s) (chain c (map fst cs')) (behind s' cs')"
    using len t first items by (rule get_scope_items)
  moreover have "Suc n + length cs' + 2 = n + length cs + 2"
    by (simp add: cs)
  ultimately show "get_scope (n + length cs + 2) ts s =
      Returns (Some (pay_scope_debt (sce_debt s) (flat_scope_tree cs)), after_close (behind s cs))"
    by (simp add: scope_close_state flat_scope_tree_def cs)
  from cmd have "parse n ts Get_cmd ?s0 = Returns (Some c, s')"
    by (simp add: get_cmd_def)
  from parse_keeps_no_debt [OF this] have c: "sce_debt s' = 0" "count_type SCE c = 0"
    by (simp_all add: keeps_no_debt_def no_SCE_def)
  from stmts_no_debt [OF rest c(1)]
  have b: "sce_debt (behind s' cs') = 0" "\<forall>c\<in>set (map fst cs'). count_type SCE c = 0"
    by simp_all
  from b(1) show "sce_debt (after_close (behind s cs)) = 1"
    by (simp add: cs after_close_def)
  from b(2) have "sum_list (map (count_type SCE) (map fst cs')) = 0"
    by (simp add: sum_list_eq_0_iff)
  with c(2) show "count_type SCE (flat_scope_tree cs) = 0"
    unfolding flat_scope_tree_def
    by (intro count_type_mark_scope) (simp add: cs count_type_chain)
qed

lemma flat_scopes_items:
  assumes "flat_scopes n ts a css" and "sce_debt a = 1"
    and "\<forall>cs\<in>set css. n + length cs + 2 \<le> m"
  shows "\<exists>xs. scope_items m ts a xs \<and>
           map fst xs = map (\<lambda>cs. CR_SCE None (Some (flat_scope_tree cs))) css \<and>
           behind a xs = after_scopes a css \<and> sce_debt (after_scopes a css) = 1"
  using assms
proof (induction css arbitrary: a)
  case Nil
  then show ?case
    by (intro exI [of _ "[]"]) simp
next
  case (Cons cs css)
  let ?a' = "after_close (behind a cs)"
  from Cons.prems(1) have flat: "flat_scope n ts a cs" and rest: "flat_scopes n ts ?a' css"
    by simp_all
  from flat have len: "tok_id a < length ts" and t: "ttype (ts ! tok_id a) \<noteq> CCBR"
    by (cases cs; auto)+
  from Cons.prems(3) obtain k where m: "m = (n + length cs + 2) + k"
    by (metis le_Suc_ex list.set_intros(1))
  have "get_scope (n + length cs + 2) ts a =
          Returns (Some (CR_SCE None (Some (flat_scope_tree cs))), ?a')"
    using flat_scope_run(1) [OF flat] Cons.prems(2) by (simp add: pay_scope_debt_def)
  from production_mono(5) [OF this, of k]
  have run: "get_scope m ts a = Returns (Some (CR_SCE None (Some (flat_scope_tree cs))), ?a')"
    unfolding m .
  from Cons.IH [OF rest flat_scope_run(2) [OF flat]] Cons.prems(3) obtain xs where
    xs: "scope_items m ts ?a' xs"
    "map fst xs = map (\<lambda>cs. CR_SCE None (Some (flat_scope_tree cs))) css"
    "behind ?a' xs = after_scopes ?a' css" "sce_debt (after_scopes ?a' css) = 1"
    by auto
  with len t run show ?case
    by (intro exI [of _ "(CR_SCE None (Some (flat_scope_tree cs)), ?a') # xs"]) simp
qed

lemma mark_scope_SCS: "ntype rt = SCS \<Longrightarrow> mark_scope rt = CR_SCS None (Some rt)"
  by (simp add: mark_scope_def)

lemma length_le_concat: "cs \<in> set css \<Longrightarrow> length cs \<le> length (concat css)"
  by (induction css) auto

lemma flat_scopes_trees:
  "flat_scopes n ts a css \<Longrightarrow> cs \<in> set css \<Longrightarrow> count_type SCE (flat_scope_tree cs) = 0"
  by (induction css arbitrary: a) (auto dest: flat_scope_run(3))

lemma count_type_SCE_nodes:
  "\<forall>cs\<in>set css. count_type SCE (flat_scope_tree cs) = 0 \<Longrightarrow>
     sum_list (map (count_type SCE) (map (\<lambda>cs. CR_SCE None (Some (flat_scope_tree cs))) css)) =
       length css"
  by (induction css) (simp_all add: CR_SCE_def)

text \<open>
  C1, amended. Take a scope that holds \<open>k \<ge> 1\<close> consecutive sub-scopes and nothing
  else, each sub-scope holding statements only, one or more, of any kind that \<open>get_cmd\<close>
  parses (\<open>flat_scopes\<close>), so that each closes with no trailing statement. Wherever the
  scope stands in the token array and whatever debt \<open>d\<close> it is entered with, \<open>get_scope\<close>
  (with the fuel of the statements, one unit for each statement and each sub-scope, and
  four more) returns the chain of the \<open>k\<close> sub-scopes: it holds exactly \<open>d + (k - 1)\<close>
  nodes \<open>SCE\<close>, one for each sub-scope after the first and one for each unit of the debt
  found on entry, the cursor is behind the close brace of the scope, and the debt counter
  is 2, not zero.
\<close>

theorem flat_sub_scopes_debt:
  assumes "tok_id s < length ts" and "ttype (ts ! tok_id s) = OCBR"
    and "flat_scopes n ts (id_incr (s\<lparr>sce_debt := 0\<rparr>)) (cs # css)"
  shows "get_scope (n + length (concat (cs # css)) + length css + 4) ts s =
           Returns (Some (flat_scopes_tree (sce_debt s) (cs # css)),
                    \<lparr>tok_id = tok_id (after_scopes (id_incr (s\<lparr>sce_debt := 0\<rparr>)) (cs # css)) + 1,
                     sce_debt = 2\<rparr>) \<and>
         count_type SCE (flat_scopes_tree (sce_debt s) (cs # css)) =
           sce_debt s + (length (cs # css) - 1)"
proof
  let ?s0 = "id_incr (s\<lparr>sce_debt := 0\<rparr>)"
  let ?a = "after_close (behind ?s0 cs)"
  define m where "m = n + length (concat (cs # css)) + 2"
  let ?us = "map (\<lambda>cs. CR_SCE None (Some (flat_scope_tree cs))) css"
  from assms(3) have flat: "flat_scope n ts ?s0 cs" and rest: "flat_scopes n ts ?a css"
    by simp_all
  have "get_scope (n + length cs + 2) ts ?s0 = Returns (Some (flat_scope_tree cs), ?a)"
    using flat_scope_run(1) [OF flat] by (simp add: pay_scope_debt_def)
  from production_mono(5) [OF this, of "length (concat css)"]
  have first: "get_scope m ts ?s0 = Returns (Some (flat_scope_tree cs), ?a)"
    by (simp add: m_def add.commute add.left_commute)
  have "\<forall>cs'\<in>set css. n + length cs' + 2 \<le> m"
    using length_le_concat [of _ css] by (fastforce simp: m_def)
  from flat_scopes_items [OF rest flat_scope_run(2) [OF flat] this] obtain xs where
    xs: "scope_items m ts ?a xs" "map fst xs = ?us"
    "behind ?a xs = after_scopes ?a css" and debt: "sce_debt (after_scopes ?a css) = 1"
    by blast
  from xs(2) have "length xs = length css"
    by (metis length_map)
  then have fuel: "n + length (concat (cs # css)) + length css + 4 = m + length xs + 2"
    by (simp add: m_def)
  have "after_close (after_scopes ?a css) = \<lparr>tok_id = tok_id (after_scopes ?a css) + 1, sce_debt = 2\<rparr>"
    using debt by (simp add: after_close_def id_incr_def)
  then show "get_scope (n + length (concat (cs # css)) + length css + 4) ts s =
           Returns (Some (flat_scopes_tree (sce_debt s) (cs # css)),
                    \<lparr>tok_id = tok_id (after_scopes ?s0 (cs # css)) + 1, sce_debt = 2\<rparr>)"
    unfolding fuel get_scope_items [OF assms(1,2) first xs(1)]
    by (simp add: scope_close_state xs(2,3) flat_scopes_tree_def mark_scope_SCS
        flat_scope_tree_def)
  have "sum_list (map (count_type SCE) ?us) = length css"
    using rest by (intro count_type_SCE_nodes) (auto dest: flat_scopes_trees)
  then show "count_type SCE (flat_scopes_tree (sce_debt s) (cs # css)) =
           sce_debt s + (length (cs # css) - 1)"
    by (simp add: flat_scopes_tree_def count_type_pay_scope_debt CR_SCS_def count_type_chain
        flat_scope_run(3) [OF flat])
qed

lemma two_sub_scopes_stmts:
  "get_cmd 12 two_sub_scopes \<lparr>tok_id = 2, sce_debt = 0\<rparr> =
     Returns (Some stmt_a_b, \<lparr>tok_id = 6, sce_debt = 0\<rparr>)"
  "get_cmd 12 two_sub_scopes \<lparr>tok_id = 8, sce_debt = 0\<rparr> =
     Returns (Some stmt_x_1, \<lparr>tok_id = 12, sce_debt = 0\<rparr>)"
  "get_cmd 12 two_sub_scopes \<lparr>tok_id = 12, sce_debt = 0\<rparr> =
     Returns (Some stmt_if, \<lparr>tok_id = 24, sce_debt = 0\<rparr>)"
  by (simp_all add: two_sub_scopes_def stmt_a_b_def stmt_x_1_def stmt_if_def run_simps)

theorem flat_sub_scopes_debt_witness:
  "tok_id \<lparr>tok_id = 0, sce_debt = 1\<rparr> < length two_sub_scopes \<and>
   ttype (two_sub_scopes ! tok_id \<lparr>tok_id = 0, sce_debt = 1\<rparr>) = OCBR \<and>
   flat_scopes 12 two_sub_scopes \<lparr>tok_id = 1, sce_debt = 0\<rparr>
     [[(stmt_a_b, \<lparr>tok_id = 6, sce_debt = 0\<rparr>)],
      [(stmt_x_1, \<lparr>tok_id = 12, sce_debt = 0\<rparr>), (stmt_if, \<lparr>tok_id = 24, sce_debt = 0\<rparr>)]] \<and>
   get_scope 20 two_sub_scopes \<lparr>tok_id = 0, sce_debt = 1\<rparr> =
     Returns
       (Some (CR_SCE None (Some (CR_SCS None (Some
          (Node SCS NoV (left stmt_a_b) (Some (CR_SCE None (Some
             (Node SCS NoV (left stmt_x_1) (Some stmt_if)))))))))),
        \<lparr>tok_id = 26, sce_debt = 2\<rparr>) \<and>
   count_type SCE (CR_SCE None (Some (CR_SCS None (Some
          (Node SCS NoV (left stmt_a_b) (Some (CR_SCE None (Some
             (Node SCS NoV (left stmt_x_1) (Some stmt_if)))))))))) = 2"
proof -
  let ?s = "\<lparr>tok_id = 0, sce_debt = 1\<rparr>"
  let ?css = "[[(stmt_a_b, \<lparr>tok_id = 6, sce_debt = 0\<rparr>)],
      [(stmt_x_1, \<lparr>tok_id = 12, sce_debt = 0\<rparr>), (stmt_if, \<lparr>tok_id = 24, sce_debt = 0\<rparr>)]]"
  have a: "tok_id ?s < length two_sub_scopes"
    and b: "ttype (two_sub_scopes ! tok_id ?s) = OCBR"
    by (simp_all add: two_sub_scopes_def tSYM_def)
  have toks: "length two_sub_scopes = 26"
    "ttype (two_sub_scopes ! Suc 0) = OCBR" "ttype (two_sub_scopes ! Suc (Suc 0)) = VAR"
    "ttype (two_sub_scopes ! 6) = CCBR" "ttype (two_sub_scopes ! 7) = OCBR"
    "ttype (two_sub_scopes ! 8) = VAR" "ttype (two_sub_scopes ! 12) = KWD"
    "ttype (two_sub_scopes ! 24) = CCBR" "ttype (two_sub_scopes ! 25) = CCBR"
    by (simp_all add: two_sub_scopes_def tSYM_def tVAR_def tKWD_def)
  have first: "get_cmd 12 two_sub_scopes \<lparr>tok_id = Suc (Suc 0), sce_debt = 0\<rparr> =
      Returns (Some stmt_a_b, \<lparr>tok_id = 6, sce_debt = 0\<rparr>)"
    using two_sub_scopes_stmts(1) by (simp add: numeral_2_eq_2)
  have c: "flat_scopes 12 two_sub_scopes \<lparr>tok_id = 1, sce_debt = 0\<rparr> ?css"
    by (simp add: first two_sub_scopes_stmts toks after_close_def id_incr_def)
  have s0: "id_incr (?s\<lparr>sce_debt := 0\<rparr>) = \<lparr>tok_id = 1, sce_debt = 0\<rparr>"
    by (simp add: id_incr_def)
  have tree: "flat_scopes_tree 1 ?css =
      CR_SCE None (Some (CR_SCS None (Some
          (Node SCS NoV (left stmt_a_b) (Some (CR_SCE None (Some
             (Node SCS NoV (left stmt_x_1) (Some stmt_if)))))))))"
    by (simp add: flat_scopes_tree_def flat_scope_tree_def pay_scope_debt_def mark_scope_def
        stmt_a_b_def stmt_x_1_def CR_SMC_def CR_SCE_def CR_SCS_def)
  have c': "flat_scopes 12 two_sub_scopes (id_incr (?s\<lparr>sce_debt := 0\<rparr>)) ?css"
    unfolding s0 by (rule c)
  from flat_sub_scopes_debt [OF a b c']
  have "get_scope 20 two_sub_scopes ?s =
          Returns (Some (flat_scopes_tree 1 ?css), \<lparr>tok_id = 26, sce_debt = 2\<rparr>)"
    and "count_type SCE (flat_scopes_tree 1 ?css) = 2"
    by (simp_all add: s0 after_close_def id_incr_def)
  with a b c show ?thesis
    unfolding tree by simp
qed


subsection \<open>The debt a scope leaves and the debt it pays\<close>

lemma scope_loop_close:
  "scope_loop n ts d rt c s = Returns r \<Longrightarrow>
     \<exists>rt' s2. tok_id s2 < length ts \<and> ttype (ts ! tok_id s2) = CCBR \<and>
       (\<forall>d'. scope_loop n ts d' rt c s = scope_close d' rt' s2)"
proof (induction n arbitrary: rt c s)
  case 0
  then show ?case by simp
next
  case (Suc n)
  from Suc.prems [unfolded scope_loop_Suc] have len: "tok_id s < length ts"
    and body: "(if ttype (ts ! tok_id s) \<noteq> CCBR
          then call (get_scope n ts s)
                 (\<lambda>x s1. case c of None \<Rightarrow> Crash
                     | Some k \<Rightarrow> scope_loop n ts d (scope_end_assign rt x)
                                  (step_right (scope_end_assign rt x) k) s1)
          else scope_close d rt s) = Returns r"
    by (auto elim: CUR_Returns)
  show ?case
  proof (cases "ttype (ts ! tok_id s) = CCBR")
    case True
    with len show ?thesis
      by (intro exI [of _ rt] exI [of _ s]) (simp add: scope_loop_Suc)
  next
    case False
    with body obtain x s1 where x: "get_scope n ts s = Returns (x, s1)"
      and rest: "(case c of None \<Rightarrow> Crash
                  | Some k \<Rightarrow> scope_loop n ts d (scope_end_assign rt x)
                               (step_right (scope_end_assign rt x) k) s1) = Returns r"
      by (auto elim: call_Returns)
    from rest obtain k where c: "c = Some k"
      and l: "scope_loop n ts d (scope_end_assign rt x) (step_right (scope_end_assign rt x) k) s1
                = Returns r"
      by (cases c) auto
    from Suc.IH [OF l] obtain rt' s2 where "tok_id s2 < length ts" "ttype (ts ! tok_id s2) = CCBR"
      and all: "\<forall>d'. scope_loop n ts d' (scope_end_assign rt x)
                      (step_right (scope_end_assign rt x) k) s1 = scope_close d' rt' s2"
      by blast
    moreover have "\<forall>d'. scope_loop (Suc n) ts d' rt c s = scope_close d' rt' s2"
      using len False x c all by (simp add: scope_loop_Suc)
    ultimately show ?thesis by blast
  qed
qed



subsection \<open>The end of a chain\<close>

lemma right_chain_walk:
  "right_chain h (a # as) \<Longrightarrow> scope_end_walk h a = Some (Returns (last (a # as)))"
proof (induction as arbitrary: a)
  case Nil
  then show ?case
    by (subst scope_end_walk.simps) (simp split: option.splits)
next
  case (Cons b as)
  then show ?case
    by (subst scope_end_walk.simps) (auto split: option.splits)
qed

lemma right_chain_suffix:
  "right_chain h (pre @ a # post) \<Longrightarrow> right_chain h (a # post)"
proof (induction pre)
  case Nil
  then show ?case by simp
next
  case (Cons p pre)
  then show ?case by (cases pre) auto
qed

lemma right_chain_last:
  "right_chain h as \<Longrightarrow> \<exists>c. h (last as) = Some c \<and> c_right c = None"
  by (induction h as rule: right_chain.induct) (auto split: option.splits)

lemma right_chain_inner:
  "right_chain h (pre @ a # b # post) \<Longrightarrow> \<exists>c. h a = Some c \<and> c_right c = Some b"
  using right_chain_suffix [of h pre a "b # post"] by (auto split: option.splits)

lemma right_chain_unique:
  assumes "right_chain h as" and "a \<in> set as" and "h a = Some c" and "c_right c = None"
  shows "a = last as"
proof -
  from assms(2) obtain pre post where as: "as = pre @ a # post"
    by (meson split_list)
  show ?thesis
  proof (cases post)
    case Nil
    with as show ?thesis by simp
  next
    case (Cons b post')
    with assms(1) as have "\<exists>c. h a = Some c \<and> c_right c = Some b"
      using right_chain_inner [of h pre a b post'] by simp
    with assms(3,4) show ?thesis by simp
  qed
qed

lemma right_chain_distinct: "right_chain h as \<Longrightarrow> distinct as"
proof (induction h as rule: right_chain.induct)
  case (3 h a b as)
  then have ch: "right_chain h (b # as)" and d: "distinct (b # as)" by auto
  from 3 obtain c where c: "h a = Some c" "c_right c = Some b" by (auto split: option.splits)
  have "a \<notin> set (b # as)"
  proof
    assume "a \<in> set (b # as)"
    then obtain pre post where split: "b # as = pre @ a # post"
      by (meson split_list)
    show False
    proof (cases post)
      case Nil
      with split ch have "a = last (b # as)" by simp
      with right_chain_last [OF ch] c show False by auto
    next
      case (Cons x post')
      with split ch have "\<exists>c. h a = Some c \<and> c_right c = Some x"
        using right_chain_inner [of h pre a x post'] by simp
      with c have x: "x = b" by simp
      from split Cons x have "b # as = pre @ a # b # post'" by simp
      then have "b \<in> set as" by (cases pre) auto
      with d show False by simp
    qed
  qed
  with d show ?case by simp
qed simp_all

text \<open>
  C10. \<open>get_scope_end\<close> of the null pointer returns null. For a chain of nodes linked by
  \<open>right\<close> that ends in a node without a right child (such a chain is finite and, by
  \<open>right_chain_distinct\<close>, acyclic) and for any node of it, \<open>get_scope_end\<close> returns
  the last node of the chain, which is the one node of the chain whose right child is
  absent, and leaves the store as it was.
\<close>

theorem get_scope_end_last:
  "get_scope_end h None = Some (Returns (None, h)) \<and>
   (right_chain h as \<and> a \<in> set as \<longrightarrow>
      get_scope_end h (Some a) = Some (Returns (Some (last as), h)) \<and>
      last as \<in> set as \<and>
      (\<exists>c. h (last as) = Some c \<and> c_right c = None) \<and>
      (\<forall>b c. b \<in> set as \<and> h b = Some c \<and> c_right c = None \<longrightarrow> b = last as))"
proof (intro conjI impI)
  show "get_scope_end h None = Some (Returns (None, h))"
    by (simp add: get_scope_end_def)
next
  assume "right_chain h as \<and> a \<in> set as"
  then have ch: "right_chain h as" and a: "a \<in> set as" by simp_all
  from a obtain pre post where as: "as = pre @ a # post"
    by (meson split_list)
  from ch have "right_chain h (a # post)"
    unfolding as by (rule right_chain_suffix)
  then have "scope_end_walk h a = Some (Returns (last (a # post)))"
    by (rule right_chain_walk)
  moreover have "last (a # post) = last as"
    by (simp add: as)
  ultimately show "get_scope_end h (Some a) = Some (Returns (Some (last as), h))"
    by (simp add: get_scope_end_def)
  from a show "last as \<in> set as"
    by (cases as) auto
  from ch show "\<exists>c. h (last as) = Some c \<and> c_right c = None"
    by (rule right_chain_last)
  from ch show "\<forall>b c. b \<in> set as \<and> h b = Some c \<and> c_right c = None \<longrightarrow> b = last as"
    by (blast intro: right_chain_unique)
qed

theorem get_scope_end_last_witness:
  "right_chain three_cells [1, 2, 3] \<and> (2::nat) \<in> set [1, 2, 3] \<and>
   get_scope_end three_cells (Some 2) = Some (Returns (Some 3, three_cells))"
proof -
  have ch: "right_chain three_cells [1, 2, 3]"
    by (simp add: three_cells_def)
  have a: "(2::nat) \<in> set [1, 2, 3]" by simp
  from get_scope_end_last [of three_cells "[1, 2, 3]" 2] ch a
  have "get_scope_end three_cells (Some 2) = Some (Returns (Some (last [1, 2, 3]), three_cells))"
    by blast
  with ch a show ?thesis by simp
qed

subsection \<open>The stored tree and the tree of the parser\<close>

text \<open>
  The parser above is written over trees, and the assignment through \<open>get_scope_end\<close> is
  the function \<open>scope_end_assign\<close> there. On a store that holds the tree, with the new
  subtree in cells of its own, the walk ends, the store through its result is defined, and
  the store afterwards holds the tree that \<open>scope_end_assign\<close> computes.
\<close>

inductive_cases tree_cells_nodeE: "tree_cells h p (Some (Node t v l r)) A"

lemma tree_cells_None [simp]:
  "tree_cells h p None A \<longleftrightarrow> p = None \<and> A = {}"
  by (auto elim: tree_cells.cases intro: tree_cells.null)

lemma tree_cells_Some:
  "tree_cells h p (Some t) A \<Longrightarrow> \<exists>a. p = Some a"
  by (auto elim: tree_cells.cases)

lemma tree_cells_frame:
  "tree_cells h p t A \<Longrightarrow> e \<notin> A \<Longrightarrow> tree_cells (h(e \<mapsto> c')) p t A"
proof (induction rule: tree_cells.induct)
  case (null h)
  show ?case by (rule tree_cells.null)
next
  case (cell h a c l L r R)
  then have "(h(e \<mapsto> c')) a = Some c" by auto
  with cell show ?case
    by (intro tree_cells.cell) auto
qed

lemma tree_cells_assign:
  "tree_cells h (Some a) (Some t) A \<Longrightarrow> tree_cells h q x B \<Longrightarrow> A \<inter> B = {} \<Longrightarrow>
     \<exists>e c. scope_end_walk h a = Some (Returns e) \<and> e \<in> A \<and> h e = Some c \<and> c_right c = None \<and>
       tree_cells (h(e \<mapsto> c\<lparr>c_right := q\<rparr>)) (Some a) (Some (scope_end_assign t x)) (A \<union> B)"
proof (induction t x arbitrary: a A rule: scope_end_assign.induct)
  case (1 t v l x)
  from "1.prems"(1) obtain c L where c: "h a = Some c" "A = insert a L" "a \<notin> L"
    "c_right c = None" "c_type c = t" "c_value c = v" and l: "tree_cells h (c_left c) l L"
    by (auto elim!: tree_cells_nodeE)
  let ?c = "c\<lparr>c_right := q\<rparr>"
  let ?h = "h(a \<mapsto> ?c)"
  have "?h a = Some ?c" by simp
  moreover have "tree_cells ?h (c_left ?c) l L" using l c by (simp add: tree_cells_frame)
  moreover have "tree_cells ?h (c_right ?c) x B" using "1.prems" c by (simp add: tree_cells_frame)
  moreover have "a \<notin> L \<union> B" "L \<inter> B = {}" using c "1.prems" by auto
  ultimately have "tree_cells ?h (Some a) (Some (Node (c_type ?c) (c_value ?c) l x)) (insert a (L \<union> B))"
    by (rule tree_cells.cell)
  with c show ?case
    by (subst scope_end_walk.simps) auto
next
  case (2 t v l r x)
  from "2.prems"(1) obtain c L R where c: "h a = Some c" "A = insert a (L \<union> R)" "a \<notin> L \<union> R"
    "L \<inter> R = {}" "c_type c = t" "c_value c = v" and l: "tree_cells h (c_left c) l L"
    and r: "tree_cells h (c_right c) (Some r) R"
    by (auto elim!: tree_cells_nodeE)
  from r obtain b where b: "c_right c = Some b"
    by (auto dest: tree_cells_Some)
  have "R \<inter> B = {}" using c "2.prems" by auto
  have "tree_cells h (Some b) (Some r) R" using r b by simp
  from "2.IH" [OF this "2.prems"(2) \<open>R \<inter> B = {}\<close>] obtain e c' where e:
    "scope_end_walk h b = Some (Returns e)" "e \<in> R" "h e = Some c'" "c_right c' = None"
    "tree_cells (h(e \<mapsto> c'\<lparr>c_right := q\<rparr>)) (Some b) (Some (scope_end_assign r x)) (R \<union> B)"
    by blast
  let ?h = "h(e \<mapsto> c'\<lparr>c_right := q\<rparr>)"
  have ne: "e \<noteq> a" "e \<notin> L" using e c by auto
  have "?h a = Some c" using ne c by simp
  moreover have "tree_cells ?h (c_left c) l L" using l ne by (simp add: tree_cells_frame)
  moreover have "tree_cells ?h (c_right c) (Some (scope_end_assign r x)) (R \<union> B)" using e b by simp
  moreover have "a \<notin> L \<union> (R \<union> B)" "L \<inter> (R \<union> B) = {}" using c "2.prems" by auto
  ultimately have "tree_cells ?h (Some a) (Some (Node (c_type c) (c_value c) l (Some (scope_end_assign r x)))) (insert a (L \<union> (R \<union> B)))"
    by (rule tree_cells.cell)
  moreover have "insert a (L \<union> (R \<union> B)) = A \<union> B" using c by auto
  ultimately show ?case using e c b
    by (subst scope_end_walk.simps) auto
qed

lemma assign_scope_end_refines:
  assumes "tree_cells h (Some a) (Some t) A" and "tree_cells h q x B" and "A \<inter> B = {}"
  shows "\<exists>h'. assign_scope_end h (Some a) q = Some (Returns h') \<and>
           tree_cells h' (Some a) (Some (scope_end_assign t x)) (A \<union> B)"
proof -
  from tree_cells_assign [OF assms] obtain e c where
    "scope_end_walk h a = Some (Returns e)" "h e = Some c"
    "tree_cells (h(e \<mapsto> c\<lparr>c_right := q\<rparr>)) (Some a) (Some (scope_end_assign t x)) (A \<union> B)"
    by blast
  then show ?thesis
    by (simp add: assign_scope_end_def get_scope_end_def)
qed

text \<open>The three linked nodes above are such a stored tree.\<close>

lemma three_cells_tree:
  "tree_cells three_cells (Some 1)
     (Some (Node SCS NoV None (Some (Node SMC NoV None (Some (Node SMC NoV None None)))))) {1, 2, 3}"
proof -
  let ?c3 = "\<lparr>c_type = SMC, c_value = NoV, c_left = None, c_right = None\<rparr>"
  let ?c2 = "\<lparr>c_type = SMC, c_value = NoV, c_left = None, c_right = Some 3\<rparr>"
  let ?c1 = "\<lparr>c_type = SCS, c_value = NoV, c_left = None, c_right = Some 2\<rparr>"
  have 3: "tree_cells three_cells (Some 3) (Some (Node SMC NoV None None)) {3}"
    using tree_cells.cell [of three_cells 3 ?c3 None "{}" None "{}"]
    by (simp add: three_cells_def tree_cells.null)
  have 2: "tree_cells three_cells (Some 2) (Some (Node SMC NoV None (Some (Node SMC NoV None None)))) {2, 3}"
    using tree_cells.cell [of three_cells 2 ?c2 None "{}" "Some (Node SMC NoV None None)" "{3}"] 3
    by (simp add: three_cells_def tree_cells.null)
  show ?thesis
    using tree_cells.cell [of three_cells 1 ?c1 None "{}"
        "Some (Node SMC NoV None (Some (Node SMC NoV None None)))" "{2, 3}"] 2
    by (simp add: three_cells_def tree_cells.null)
qed

section \<open>The assembler\<close>

lemma sizes [simp]: "ALIGN_TO_DOUBLE = 7" "ALIGN_TO_INT = 3" "sizeof_double = 8" "sizeof_int = 4" "sizeof_char = 1"
  by (simp_all add: ALIGN_TO_DOUBLE_def ALIGN_TO_INT_def sizeof_double_def sizeof_int_def sizeof_char_def)

subsection \<open>Masking\<close>

text \<open>
  C5. Masking a buffer twice with the same mask gives the buffer back.
\<close>

theorem mask_buffer_twice: "mask_buffer (mask_buffer B m) m = B"
  by (simp add: mask_buffer_def comp_def xor.assoc)

subsection \<open>Alignment of a double operand\<close>

lemma padding_to_less: "0 < sz \<Longrightarrow> padding_to sz pos < sz"
  by (simp add: padding_to_def)

lemma padding_to_dvd: "0 < sz \<Longrightarrow> sz dvd pos + padding_to sz pos"
proof (cases "pos mod sz = 0")
  case True
  then show ?thesis by (simp add: padding_to_def mod_eq_0_iff_dvd)
next
  case False
  assume "0 < sz"
  then have lt: "pos mod sz < sz" by simp
  with False have "padding_to sz pos = sz - pos mod sz"
    by (simp add: padding_to_def)
  moreover have "pos = pos div sz * sz + pos mod sz" by simp
  ultimately have "pos + padding_to sz pos = pos div sz * sz + sz"
    using lt by arith
  then show ?thesis by simp
qed

lemma length_int_bytes [simp]: "length (int_bytes w) = 4"
  by (simp add: int_bytes_def)

lemma length_double_bytes [simp]: "length (double_bytes w) = 8"
  by (simp add: double_bytes_def)

lemma write_instr_bytes:
  "write_instr b opcode sz operand =
     b @ opcode # replicate (padding_to sz (length b + sizeof_char)) 0 @ operand"
  by (simp add: write_instr_def write_char_w_alignment_def align_buffer_def write_to_buf_def)

lemma cmds_process_Nil [simp]: "cmds_process m [] = m"
  by (simp add: cmds_process_def)

lemma cmds_process_Cons [simp]: "cmds_process m (x # xs) = cmds_process (cmd_process m x) xs"
  by (simp add: cmds_process_def)

lemma cmds_process_append [simp]:
  "cmds_process m (xs @ ys) = cmds_process (cmds_process m xs) ys"
  by (simp add: cmds_process_def)

text \<open>
  C6. Wherever in the buffer an instruction with a double-sized operand is emitted, its
  one-byte opcode is followed by padding bytes, fewer than \<open>sizeof(double)\<close>, and then by
  the \<open>sizeof(double)\<close> bytes of the operand; the operand begins at an offset that is a
  multiple of \<open>sizeof(double)\<close>, its natural sz, and behind the operand the next write
  offset is a multiple of \<open>sizeof(double)\<close> again. This is so for every instruction with
  a double operand of a text, whatever was emitted before it. The constant
  \<open>ALIGN_TO_DOUBLE\<close> of the header is the padding behind an opcode that stands at a
  multiple of \<open>sizeof(double)\<close>.
\<close>

theorem double_operand_aligned:
  "emit_double b opcode x =
     b @ opcode # replicate (padding_to sizeof_double (length b + sizeof_char)) 0 @ double_bytes x \<and>
   padding_to sizeof_double (length b + sizeof_char) < sizeof_double \<and>
   sizeof_double dvd
     length (b @ opcode # replicate (padding_to sizeof_double (length b + sizeof_char)) 0) \<and>
   length (double_bytes x) = sizeof_double \<and>
   sizeof_double dvd length (emit_double b opcode x) \<and>
   byte_code (emitted jmp_opcode (pre @ [Double_instr opcode x])) =
     emit_double (byte_code (emitted jmp_opcode pre)) opcode x \<and>
   sizeof_double dvd length (byte_code (emitted jmp_opcode (pre @ [Double_instr opcode x]))) \<and>
   padding_to sizeof_double (sizeof_double * k + sizeof_char) = ALIGN_TO_DOUBLE"
proof -
  let ?p = "padding_to sizeof_double (length b + sizeof_char)"
  have bytes: "emit_double b' opcode x =
      b' @ opcode # replicate (padding_to sizeof_double (length b' + sizeof_char)) 0 @ double_bytes x"
    for b'
    by (simp add: emit_double_def write_instr_bytes)
  have less: "?p < sizeof_double"
    by (rule padding_to_less) simp
  have start: "sizeof_double dvd length b' + sizeof_char + padding_to sizeof_double (length b' + sizeof_char)"
    for b' :: "byte list"
    by (rule padding_to_dvd) simp
  have next_offset: "sizeof_double dvd length (emit_double b' opcode x)" for b'
  proof -
    have "length (emit_double b' opcode x) =
            (length b' + sizeof_char + padding_to sizeof_double (length b' + sizeof_char)) + sizeof_double"
      unfolding bytes by simp
    then show ?thesis
      by (simp only: dvd_add start dvd_refl)
  qed
  have step: "byte_code (emitted jmp_opcode (pre @ [Double_instr opcode x])) =
                emit_double (byte_code (emitted jmp_opcode pre)) opcode x"
    by (simp add: emitted_def)
  have header: "padding_to sizeof_double (sizeof_double * k + sizeof_char) = ALIGN_TO_DOUBLE"
    by (simp add: padding_to_def)
  from bytes [of b] less start [of b] next_offset [of b] step next_offset header show ?thesis
    by simp
qed

subsection \<open>The passes and the entry jump\<close>

lemma padding_to_opcode_first [simp]: "padding_to 4 (Suc 0) = 3"
  by (simp add: padding_to_def)

lemma write_main_jmp_init:
  "write_main_jmp opc init_manager =
     \<lparr>labels = [], jmp_poses = [],
      byte_code = opc # replicate ALIGN_TO_INT 0 @ int_bytes POISON_JMP_POS\<rparr>"
  by (simp add: write_main_jmp_def init_manager_def emit_int_def write_instr_bytes)

lemma labels_cmd_process:
  "map name (labels (cmd_process m x)) =
     map name (labels m) @ (case defined_label x of None \<Rightarrow> [] | Some n \<Rightarrow> [n])"
  by (cases x) (simp_all add: write_jmp_def)

lemma labels_cmds_process:
  "set (map name (labels (cmds_process m items))) =
     set (map name (labels m)) \<union> {n. has_label items n}"
proof (induction items arbitrary: m)
  case Nil
  then show ?case by (simp add: has_label_def)
next
  case (Cons x items)
  show ?case
    unfolding cmds_process_Cons Cons.IH labels_cmd_process
    by (cases "defined_label x") (auto simp: has_label_def)
qed

lemma find_label_None: "find_label ls n = None \<longleftrightarrow> n \<notin> set (map name ls)"
  by (auto simp: find_label_def find_None_iff)

lemma jmp_poses_cmd_process:
  "\<exists>js. jmp_poses (cmd_process m x) = jmp_poses m @ js \<and>
     (\<forall>j\<in>set js. length (byte_code m) \<le> jmp_IP_pos j) \<and>
     map jmp_name js = (case jump_target x of None \<Rightarrow> [] | Some n \<Rightarrow> [n])"
  by (cases x) (simp_all add: write_jmp_def get_ip_pos_def)

lemma byte_code_cmd_process: "\<exists>r. byte_code (cmd_process m x) = byte_code m @ r"
  by (cases x)
    (simp_all add: write_jmp_def emit_int_def emit_double_def write_instr_bytes write_to_buf_def)

lemma byte_code_cmds_process: "\<exists>r. byte_code (cmds_process m items) = byte_code m @ r"
proof (induction items arbitrary: m)
  case Nil
  then show ?case by simp
next
  case (Cons x items)
  from byte_code_cmd_process [of m x] obtain r1 where "byte_code (cmd_process m x) = byte_code m @ r1"
    by blast
  moreover from Cons [of "cmd_process m x"] obtain r2 where
    "byte_code (cmds_process (cmd_process m x) items) = byte_code (cmd_process m x) @ r2"
    by blast
  ultimately show ?case by simp
qed

lemma jmp_poses_cmds_process:
  "\<exists>js. jmp_poses (cmds_process m items) = jmp_poses m @ js \<and>
     (\<forall>j\<in>set js. length (byte_code m) \<le> jmp_IP_pos j) \<and>
     set (map jmp_name js) = {n. Some n \<in> set (map jump_target items)}"
proof (induction items arbitrary: m)
  case Nil
  then show ?case by simp
next
  case (Cons x items)
  from jmp_poses_cmd_process [of m x] obtain js1 where
    1: "jmp_poses (cmd_process m x) = jmp_poses m @ js1"
    "\<forall>j\<in>set js1. length (byte_code m) \<le> jmp_IP_pos j"
    "map jmp_name js1 = (case jump_target x of None \<Rightarrow> [] | Some n \<Rightarrow> [n])"
    by blast
  from Cons.IH [of "cmd_process m x"] obtain js2 where
    2: "jmp_poses (cmds_process (cmd_process m x) items) = jmp_poses (cmd_process m x) @ js2"
    "\<forall>j\<in>set js2. length (byte_code (cmd_process m x)) \<le> jmp_IP_pos j"
    "set (map jmp_name js2) = {n. Some n \<in> set (map jump_target items)}"
    by blast
  from byte_code_cmd_process [of m x] have le: "length (byte_code m) \<le> length (byte_code (cmd_process m x))"
    by auto
  have "\<forall>j\<in>set (js1 @ js2). length (byte_code m) \<le> jmp_IP_pos j"
    using 1(2) 2(2) le by (auto intro: le_trans)
  moreover have "set (map jmp_name (js1 @ js2)) = {n. Some n \<in> set (map jump_target (x # items))}"
    using 1(3) 2(3) by (cases "jump_target x") auto
  ultimately show ?case
    using 1(1) 2(1) by (intro exI [of _ "js1 @ js2"]) simp
qed

lemma take_patch:
  "k \<le> pos \<Longrightarrow> k \<le> length b \<Longrightarrow> take k (patch b pos bytes) = take k b"
  by (simp add: patch_def)

lemma length_patch:
  "k \<le> length b \<Longrightarrow> k \<le> length (patch b pos bytes)"
  unfolding patch_def length_append length_take length_drop min_def by arith

lemma arrange_jmps_keeps_prefix:
  "arrange_jmps ls js b = Inr b' \<Longrightarrow> \<forall>j\<in>set js. k \<le> jmp_IP_pos j \<Longrightarrow> k \<le> length b \<Longrightarrow>
     take k b' = take k b \<and> k \<le> length b'"
proof (induction js arbitrary: b)
  case Nil
  then show ?case by simp
next
  case (Cons j js)
  from Cons.prems(1) obtain l where l: "find_label ls (jmp_name j) = Some l"
    and rest: "arrange_jmps ls js (patch b (jmp_IP_pos j) (int_bytes (of_nat (IP_pos l)))) = Inr b'"
    by (auto split: option.splits)
  have "take k b' = take k (patch b (jmp_IP_pos j) (int_bytes (of_nat (IP_pos l)))) \<and> k \<le> length b'"
    using rest Cons.prems(2,3) by (intro Cons.IH) (simp_all add: length_patch)
  moreover have "take k (patch b (jmp_IP_pos j) (int_bytes (of_nat (IP_pos l)))) = take k b"
    using Cons.prems(2,3) by (simp add: take_patch)
  ultimately show ?case by simp
qed

lemma arrange_jmps_succeeds:
  "\<forall>j\<in>set js. jmp_name j \<in> set (map name ls) \<Longrightarrow> \<exists>b'. arrange_jmps ls js b = Inr b'"
proof (induction js arbitrary: b)
  case Nil
  then show ?case by simp
next
  case (Cons j js)
  then obtain l where "find_label ls (jmp_name j) = Some l"
    using find_label_None [of ls "jmp_name j"] by auto
  with Cons show ?case by simp
qed

lemma arrange_jmps_fails:
  "\<exists>j\<in>set js. jmp_name j \<notin> set (map name ls) \<Longrightarrow>
     \<exists>n. arrange_jmps ls js b = Inl (UnresolvedLabelError n) \<and> n \<in> set (map jmp_name js) \<and>
         n \<notin> set (map name ls)"
proof (induction js arbitrary: b)
  case Nil
  then show ?case by simp
next
  case (Cons j js)
  show ?case
  proof (cases "find_label ls (jmp_name j)")
    case None
    moreover from None have "jmp_name j \<notin> set (map name ls)"
      by (simp add: find_label_None)
    ultimately show ?thesis
      by (intro exI [of _ "jmp_name j"]) simp
  next
    case (Some l)
    then have "jmp_name j \<in> set (map name ls)"
      using find_label_None [of ls "jmp_name j"] by auto
    with Cons.prems have "\<exists>j\<in>set js. jmp_name j \<notin> set (map name ls)" by auto
    from Cons.IH [OF this, of "patch b (jmp_IP_pos j) (int_bytes (of_nat (IP_pos l)))"]
    obtain n where "arrange_jmps ls js (patch b (jmp_IP_pos j) (int_bytes (of_nat (IP_pos l)))) =
        Inl (UnresolvedLabelError n)" "n \<in> set (map jmp_name js)" "n \<notin> set (map name ls)"
      by blast
    with Some show ?thesis
      by (intro exI [of _ n]) simp
  qed
qed

lemma emitted_parts:
  obtains js where
    "jmp_poses (emitted opc items) = js"
    "\<forall>j\<in>set js. 8 \<le> jmp_IP_pos j"
    "set (map jmp_name js) = {n. Some n \<in> set (map jump_target items)}"
    "set (map name (labels (emitted opc items))) = {n. has_label items n}"
    "take 4 (byte_code (emitted opc items)) = opc # replicate ALIGN_TO_INT 0"
    "8 \<le> length (byte_code (emitted opc items))"
proof -
  let ?m0 = "write_main_jmp opc init_manager"
  from jmp_poses_cmds_process [of ?m0 items] obtain js where
    js: "jmp_poses (emitted opc items) = jmp_poses ?m0 @ js"
    "\<forall>j\<in>set js. length (byte_code ?m0) \<le> jmp_IP_pos j"
    "set (map jmp_name js) = {n. Some n \<in> set (map jump_target items)}"
    unfolding emitted_def by blast
  have l: "set (map name (labels (emitted opc items))) = {n. has_label items n}"
    unfolding emitted_def labels_cmds_process by (simp add: write_main_jmp_init)
  from byte_code_cmds_process [of ?m0 items] obtain rest where
    "byte_code (emitted opc items) = byte_code ?m0 @ rest"
    unfolding emitted_def by blast
  then have "take 4 (byte_code (emitted opc items)) = opc # replicate ALIGN_TO_INT 0"
    and "8 \<le> length (byte_code (emitted opc items))"
    by (simp_all add: write_main_jmp_init)
  with js l show ?thesis
    by (intro that [of js]) (simp_all add: write_main_jmp_init)
qed

lemma labels_cmds_process_split:
  "\<exists>ls. labels (cmds_process m items) = labels m @ ls \<and>
     set (map name ls) = {n. has_label items n}"
proof (induction items arbitrary: m)
  case Nil
  then show ?case by (simp add: has_label_def)
next
  case (Cons x items)
  from Cons.IH [of "cmd_process m x"] obtain ls where
    ls: "labels (cmds_process (cmd_process m x) items) = labels (cmd_process m x) @ ls"
    "set (map name ls) = {n. has_label items n}"
    by blast
  show ?case
  proof (cases "defined_label x")
    case None
    then have "labels (cmd_process m x) = labels m"
      by (cases x) (simp_all add: write_jmp_def)
    with ls None show ?thesis
      by (intro exI [of _ ls]) (auto simp: has_label_def)
  next
    case (Some n)
    then have "x = Label_def n" by (cases x) simp_all
    with ls show ?thesis
      by (intro exI [of _ "\<lparr>name = n, IP_pos = get_ip_pos m\<rparr> # ls"])
        (auto simp: has_label_def)
  qed
qed

lemma find_append_first:
  "find P xs = None \<Longrightarrow> P x \<Longrightarrow> find P (xs @ x # ys) = Some x"
  by (induction xs) (auto split: if_splits)

lemma find_label_last:
  assumes "name l = n" and "n \<notin> set (map name ls')"
  shows "find_label (ls @ l # ls') n = Some l"
proof -
  have "find (\<lambda>l. name l = n) (rev ls') = None"
    using assms(2) by (auto simp: find_None_iff)
  then have "find (\<lambda>l. name l = n) (rev ls' @ l # rev ls) = Some l"
    using assms(1) by (rule find_append_first)
  then show ?thesis by (simp add: find_label_def)
qed

lemma find_label_entry:
  assumes "\<not> has_label post n"
  shows "find_label (labels (emitted opc (pre @ Label_def n # post))) n =
           Some \<lparr>name = n, IP_pos = get_ip_pos (emitted opc pre)\<rparr>"
proof -
  let ?m = "cmd_process (emitted opc pre) (Label_def n)"
  from labels_cmds_process_split [of ?m post] obtain ls where
    ls: "labels (cmds_process ?m post) = labels ?m @ ls" "set (map name ls) = {k. has_label post k}"
    by blast
  have "labels (emitted opc (pre @ Label_def n # post)) =
          labels (emitted opc pre) @ \<lparr>name = n, IP_pos = get_ip_pos (emitted opc pre)\<rparr> # ls"
    using ls(1) by (simp add: emitted_def)
  moreover have "n \<notin> set (map name ls)"
    using ls(2) assms by simp
  ultimately show ?thesis
    by (simp add: find_label_last)
qed

lemma undefined_target:
  "\<not> all_targets_defined items \<longleftrightarrow>
     (\<exists>n. Some n \<in> set (map jump_target items) \<and> \<not> has_label items n)"
proof
  assume "\<not> all_targets_defined items"
  then obtain item where "item \<in> set items"
    and "\<not> (case jump_target item of None \<Rightarrow> True | Some n \<Rightarrow> has_label items n)"
    by (auto simp: all_targets_defined_def list_all_iff)
  then show "\<exists>n. Some n \<in> set (map jump_target items) \<and> \<not> has_label items n"
    by (cases "jump_target item") force+
next
  assume "\<exists>n. Some n \<in> set (map jump_target items) \<and> \<not> has_label items n"
  then obtain n item where "item \<in> set items" "jump_target item = Some n" "\<not> has_label items n"
    by (metis (no_types, lifting) imageE list.set_map)
  then show "\<not> all_targets_defined items"
    by (auto simp: all_targets_defined_def list_all_iff intro!: bexI [of _ item])
qed

lemma emitted_jump_only:
  "emitted 7 [Jump_to 9 ''foo''] =
     \<lparr>labels = [], jmp_poses = [\<lparr>jmp_name = ''foo'', jmp_IP_pos = 12\<rparr>],
      byte_code = (7 # replicate ALIGN_TO_INT 0 @ int_bytes POISON_JMP_POS) @
                  9 # replicate ALIGN_TO_INT 0 @ int_bytes POISON_JMP_POS\<rparr>"
  by (simp add: emitted_def write_main_jmp_init write_jmp_def get_ip_pos_def emit_int_def
      write_instr_bytes padding_to_def)



lemma poison_bytes: "int_bytes POISON_JMP_POS = [255, 255, 255, 255]"
  unfolding int_bytes_def POISON_JMP_POS_def by code_simp

lemma int_bytes_small: "int_bytes 5 = [5, 0, 0, 0]" "int_bytes 16 = [16, 0, 0, 0]"
  unfolding int_bytes_def by code_simp+

lemma emitted_with_entry:
  "emitted 7 [Int_instr 3 5, Label_def ''main'', Jump_to 9 ''main''] =
     \<lparr>labels = [\<lparr>name = ''main'', IP_pos = 16\<rparr>],
      jmp_poses = [\<lparr>jmp_name = ''main'', jmp_IP_pos = 20\<rparr>],
      byte_code = [7, 0, 0, 0, 255, 255, 255, 255, 3, 0, 0, 0, 5, 0, 0, 0,
                   9, 0, 0, 0, 255, 255, 255, 255]\<rparr>"
proof -
  have "emitted 7 [Int_instr 3 5, Label_def ''main'', Jump_to 9 ''main''] =
     \<lparr>labels = [\<lparr>name = ''main'', IP_pos = 16\<rparr>],
      jmp_poses = [\<lparr>jmp_name = ''main'', jmp_IP_pos = 20\<rparr>],
      byte_code = (7 # replicate ALIGN_TO_INT 0 @ int_bytes POISON_JMP_POS) @
                  (3 # replicate ALIGN_TO_INT 0 @ int_bytes 5) @
                  9 # replicate ALIGN_TO_INT 0 @ int_bytes POISON_JMP_POS\<rparr>"
    by (simp add: emitted_def write_main_jmp_init write_jmp_def get_ip_pos_def emit_int_def
        write_instr_bytes padding_to_def)
  then show ?thesis
    by (simp add: poison_bytes int_bytes_small numeral_3_eq_3)
qed

lemma assemble_with_entry:
  "assemble 7 [Int_instr 3 5, Label_def ''main'', Jump_to 9 ''main''] =
     Inr [7, 0, 0, 0, 16, 0, 0, 0, 3, 0, 0, 0, 5, 0, 0, 0, 9, 0, 0, 0, 16, 0, 0, 0]"
  by (simp add: assemble_def arrange_labels_def entry_fixup_def emitted_with_entry find_label_def
      patch_def int_bytes_small MAIN_JMP_NAME_def)


subsection \<open>The I/O checks\<close>

text \<open>
  C8. The assembler reads a file once, in \<open>parse_human_code\<close>, and writes one once, in
  \<open>create_bin\<close>. When the read gives fewer or more elements than were asked for,
  \<open>parse_human_code\<close> returns \<open>ASM_INVALID_FREAD\<close> and so does the driver, whatever the
  text, the tokenizer and the write would have been: nothing is assembled and nothing
  written. When the write gives fewer or more elements than the buffer holds,
  \<open>create_bin\<close> returns \<open>ASM_INVALID_FWRITE\<close>, and a driver that got as far as the write
  returns this error in place of the artifact.
\<close>

theorem io_mismatch_aborts:
  "(fst (fread io (file_length io)) < file_length io \<or>
    file_length io < fst (fread io (file_length io)) \<longrightarrow>
      parse_human_code io = Inl ASM_INVALID_FREAD \<and>
      assemble_file io tokens jmp_opcode msk = Inl ASM_INVALID_FREAD) \<and>
   (fwrite io b (of_nat (length b)) < of_nat (length b) \<or>
    of_nat (length b) < fwrite io b (of_nat (length b)) \<longrightarrow>
      create_bin io b = Inl ASM_INVALID_FWRITE) \<and>
   (parse_human_code io = Inr human_code \<and>
    assemble jmp_opcode (tokens human_code) = Inr buf \<and>
    (fwrite io (mask_buffer buf msk) (of_nat (length buf)) < of_nat (length buf) \<or>
     of_nat (length buf) < fwrite io (mask_buffer buf msk) (of_nat (length buf))) \<longrightarrow>
      assemble_file io tokens jmp_opcode msk = Inl ASM_INVALID_FWRITE)"
proof (intro conjI impI)
  assume "fst (fread io (file_length io)) < file_length io \<or>
          file_length io < fst (fread io (file_length io))"
  then have "fst (fread io (file_length io)) \<noteq> file_length io"
    by auto
  then show "parse_human_code io = Inl ASM_INVALID_FREAD"
    by (simp add: parse_human_code_def FREAD_CHECK_def split_beta)
  then show "assemble_file io tokens jmp_opcode msk = Inl ASM_INVALID_FREAD"
    by (simp add: assemble_file_def)
next
  assume "fwrite io b (of_nat (length b)) < of_nat (length b) \<or>
          of_nat (length b) < fwrite io b (of_nat (length b))"
  then have "fwrite io b (of_nat (length b)) \<noteq> of_nat (length b)"
    by auto
  then show "create_bin io b = Inl ASM_INVALID_FWRITE"
    by (simp add: create_bin_def FWRITE_CHECK_def)
next
  assume a: "parse_human_code io = Inr human_code \<and>
    assemble jmp_opcode (tokens human_code) = Inr buf \<and>
    (fwrite io (mask_buffer buf msk) (of_nat (length buf)) < of_nat (length buf) \<or>
     of_nat (length buf) < fwrite io (mask_buffer buf msk) (of_nat (length buf)))"
  then have "fwrite io (mask_buffer buf msk) (of_nat (length (mask_buffer buf msk))) \<noteq>
             of_nat (length (mask_buffer buf msk))"
    by (auto simp: mask_buffer_def)
  then have "create_bin io (mask_buffer buf msk) = Inl ASM_INVALID_FWRITE"
    by (simp add: create_bin_def FWRITE_CHECK_def)
  with a show "assemble_file io tokens jmp_opcode msk = Inl ASM_INVALID_FWRITE"
    by (simp add: assemble_file_def)
qed

lemma assemble_main_only: "assemble 7 [Label_def ''main''] = Inr [7, 0, 0, 0, 8, 0, 0, 0]"
proof -
  have "emitted 7 [Label_def ''main''] =
          \<lparr>labels = [\<lparr>name = ''main'', IP_pos = 8\<rparr>], jmp_poses = [],
           byte_code = 7 # replicate ALIGN_TO_INT 0 @ int_bytes POISON_JMP_POS\<rparr>"
    by (simp add: emitted_def write_main_jmp_init get_ip_pos_def)
  then show ?thesis
    by (simp add: assemble_def arrange_labels_def entry_fixup_def find_label_def patch_def
        int_bytes_def MAIN_JMP_NAME_def POISON_JMP_POS_def numeral_3_eq_3)
qed

theorem io_mismatch_aborts_witness:
  "fst (fread short_read (file_length short_read)) < file_length short_read \<and>
   parse_human_code short_read = Inl ASM_INVALID_FREAD \<and>
   assemble_file short_read (\<lambda>human_code. [Label_def ''main'']) 7 90 = Inl ASM_INVALID_FREAD \<and>
   of_nat (length [1, 2 :: byte]) < fwrite long_write [1, 2] (of_nat (length [1, 2 :: byte])) \<and>
   create_bin long_write [1, 2] = Inl ASM_INVALID_FWRITE \<and>
   parse_human_code long_write = Inr [109, 97, 105, 110] \<and>
   assemble 7 [Label_def ''main''] = Inr [7, 0, 0, 0, 8, 0, 0, 0] \<and>
   of_nat (length [7, 0, 0, 0, 8, 0, 0, 0 :: byte])
     < fwrite long_write (mask_buffer [7, 0, 0, 0, 8, 0, 0, 0] 90)
         (of_nat (length [7, 0, 0, 0, 8, 0, 0, 0 :: byte])) \<and>
   assemble_file long_write (\<lambda>human_code. [Label_def ''main'']) 7 90 = Inl ASM_INVALID_FWRITE"
proof -
  have r: "fst (fread short_read (file_length short_read)) < file_length short_read"
    by (simp add: short_read_def)
  have w: "of_nat (length [1, 2 :: byte]) < fwrite long_write [1, 2] (of_nat (length [1, 2 :: byte]))"
    by (simp add: long_write_def)
  have p: "parse_human_code long_write = Inr [109, 97, 105, 110]"
    by (simp add: parse_human_code_def long_write_def FREAD_CHECK_def)
  have a: "assemble 7 [Label_def ''main''] = Inr [7, 0, 0, 0, 8, 0, 0, 0]"
    by (rule assemble_main_only)
  have w': "of_nat (length [7, 0, 0, 0, 8, 0, 0, 0 :: byte])
     < fwrite long_write (mask_buffer [7, 0, 0, 0, 8, 0, 0, 0] 90)
         (of_nat (length [7, 0, 0, 0, 8, 0, 0, 0 :: byte]))"
    by (simp add: long_write_def)
  from io_mismatch_aborts [where io = short_read and tokens = "\<lambda>human_code. [Label_def ''main'']"
      and jmp_opcode = 7 and msk = 90] r
  have 1: "parse_human_code short_read = Inl ASM_INVALID_FREAD"
    "assemble_file short_read (\<lambda>human_code. [Label_def ''main'']) 7 90 = Inl ASM_INVALID_FREAD"
    by blast+
  from io_mismatch_aborts [where io = long_write and tokens = "\<lambda>human_code. [Label_def ''main'']"
      and jmp_opcode = 7 and msk = 90 and b = "[1, 2]" and human_code = "[109, 97, 105, 110]"
      and buf = "[7, 0, 0, 0, 8, 0, 0, 0]"] w p a w'
  have 2: "create_bin long_write [1, 2] = Inl ASM_INVALID_FWRITE"
    "assemble_file long_write (\<lambda>human_code. [Label_def ''main'']) 7 90 = Inl ASM_INVALID_FWRITE"
    by blast+
  from r w p a w' 1 2 show ?thesis by blast
qed


end
